theory Spec2Isabelle
  imports Main "HOL-Library.Word" "HOL-Library.Multiset"
begin

unbundle bit_operations_syntax

chapter \<open>The SMPA archive engine of the Total Commander packer plugin\<close>

text \<open>
  A shallow embedding of \<^verbatim>\<open>src/utils.cpp\<close> and \<^verbatim>\<open>src/archive.cpp\<close>.
  Bytes are \<open>8 word\<close>, \<^verbatim>\<open>wchar_t\<close> is the 16-bit code unit of Windows, the
  \<^verbatim>\<open>uint64_t\<close> sizes of an entry header are \<open>64 word\<close>. A C++ \<^verbatim>\<open>throw\<close> of a
  WCX error code and a \<^verbatim>\<open>return\<close> of a non-zero code are both the left summand
  of a result; the exported entry points turn a thrown code into the returned one.
\<close>

section \<open>Machine types and error codes\<close>

type_synonym byte = "8 word"
type_synonym wchar = "16 word"
type_synonym wstring = "wchar list"

datatype wcx_error =
    E_END_ARCHIVE
  | E_NO_MEMORY
  | E_BAD_DATA
  | E_BAD_ARCHIVE
  | E_UNKNOWN_FORMAT
  | E_EOPEN
  | E_ECREATE
  | E_EREAD
  | E_EWRITE
  | E_SMALL_BUF
  | E_EABORTED
  | E_NOT_SUPPORTED

text \<open>Wide string literals for examples: ASCII text, and path components joined by a
  backslash.\<close>

definition W :: "string \<Rightarrow> wstring" where
  "W s = map (\<lambda>c. of_nat (of_char c)) s"

definition backslash :: wchar where
  "backslash = 0x5C"

definition slash :: wchar where
  "slash = 0x2F"

fun wpath :: "string list \<Rightarrow> wstring" where
  "wpath [] = []"
| "wpath [s] = W s"
| "wpath (s # t # ss) = W s @ backslash # wpath (t # ss)"

section \<open>The C runtime: case mapping, comparison, sorting, binary search\<close>

text \<open>
  \<^verbatim>\<open>towupper\<close>, \<^verbatim>\<open>towlower\<close> and \<^verbatim>\<open>_wcsicmp\<close> in the "C" locale (the plugin never
  calls \<^verbatim>\<open>setlocale\<close>): only the ASCII letters change case. A C string ends at its
  first NUL, so a function taking \<^verbatim>\<open>c_str()\<close> sees \<open>c_str s\<close>.
\<close>

definition towupper :: "wchar \<Rightarrow> wchar" where
  "towupper c = (if 0x61 \<le> c \<and> c \<le> 0x7A then c - 0x20 else c)"

definition towlower :: "wchar \<Rightarrow> wchar" where
  "towlower c = (if 0x41 \<le> c \<and> c \<le> 0x5A then c + 0x20 else c)"

definition c_str :: "wstring \<Rightarrow> wstring" where
  "c_str s = takeWhile (\<lambda>c. c \<noteq> 0) s"

fun wcsicmp :: "wstring \<Rightarrow> wstring \<Rightarrow> int" where
  "wcsicmp [] [] = 0"
| "wcsicmp [] (y # ys) = - int (unat (towlower y))"
| "wcsicmp (x # xs) [] = int (unat (towlower x))"
| "wcsicmp (x # xs) (y # ys) =
     (if towlower x = towlower y then wcsicmp xs ys
      else int (unat (towlower x)) - int (unat (towlower y)))"

text \<open>\<^verbatim>\<open>struct StricmpPred\<close> of utils.hpp.\<close>

definition StricmpPred :: "wstring \<Rightarrow> wstring \<Rightarrow> bool" where
  "StricmpPred lhs rhs = (wcsicmp (c_str lhs) (c_str rhs) < 0)"

text \<open>\<^verbatim>\<open>operator<\<close> of \<^verbatim>\<open>std::wstring\<close>: lexicographic on the code units.\<close>

fun wstring_less :: "wstring \<Rightarrow> wstring \<Rightarrow> bool" where
  "wstring_less [] [] = False"
| "wstring_less [] (y # ys) = True"
| "wstring_less (x # xs) [] = False"
| "wstring_less (x # xs) (y # ys) = (x < y \<or> (x = y \<and> wstring_less xs ys))"

text \<open>
  \<^verbatim>\<open>std::sort\<close> with a comparison: the result is an ordered permutation. Where no two
  elements are equivalent that fixes it; equivalent elements are kept here in their
  input order (insertion from the right).
\<close>

fun insert_by :: "('a \<Rightarrow> 'a \<Rightarrow> bool) \<Rightarrow> 'a \<Rightarrow> 'a list \<Rightarrow> 'a list" where
  "insert_by lt x [] = [x]"
| "insert_by lt x (y # ys) = (if lt y x then y # insert_by lt x ys else x # y # ys)"

fun std_sort :: "('a \<Rightarrow> 'a \<Rightarrow> bool) \<Rightarrow> 'a list \<Rightarrow> 'a list" where
  "std_sort lt [] = []"
| "std_sort lt (x # xs) = insert_by lt x (std_sort lt xs)"

text \<open>
  \<^verbatim>\<open>std::lower_bound(first, last, value, comp)\<close>: bisection, as every standard library
  writes it. The result is an index into the range, \<open>length xs\<close> standing for \<^verbatim>\<open>last\<close>.
\<close>

function lower_bound :: "('a \<Rightarrow> 'b \<Rightarrow> bool) \<Rightarrow> 'a list \<Rightarrow> 'b \<Rightarrow> nat" where
  "lower_bound cmp xs v =
     (if xs = [] then 0
      else let count2 = length xs div 2 in
        if cmp (xs ! count2) v
        then count2 + 1 + lower_bound cmp (drop (count2 + 1) xs) v
        else lower_bound cmp (take count2 xs) v)"
  by pat_completeness auto
termination
  by (relation "measure (\<lambda>(cmp, xs, v). length xs)") auto

declare lower_bound.simps [simp del]

section \<open>utils.cpp\<close>

definition UpperCase :: "wstring \<Rightarrow> wstring" where
  "UpperCase s = map towupper s"

definition is_slash :: "wchar \<Rightarrow> bool" where
  "is_slash c = (c = 0x5C \<or> c = 0x2F)"

text \<open>\<^verbatim>\<open>find_last_of(L"\\/")\<close>: the index of the last separator, \<open>None\<close> for
  \<^verbatim>\<open>npos\<close>.\<close>

fun find_last_of_slash :: "wstring \<Rightarrow> nat option" where
  "find_last_of_slash [] = None"
| "find_last_of_slash (c # cs) =
     (case find_last_of_slash cs of
        Some i \<Rightarrow> Some (Suc i)
      | None \<Rightarrow> if is_slash c then Some 0 else None)"

definition CombinePath :: "wstring \<Rightarrow> wstring \<Rightarrow> wstring" where
  "CombinePath path name =
     (if path \<noteq> [] \<and> name \<noteq> [] \<and> \<not> is_slash (last path)
      then path @ [0x5C] @ c_str name
      else path @ c_str name)"

definition ExtractFileName :: "wstring \<Rightarrow> wstring" where
  "ExtractFileName path =
     (case find_last_of_slash path of None \<Rightarrow> path | Some it \<Rightarrow> drop (it + 1) path)"

definition StripTrailingSlash :: "wstring \<Rightarrow> wstring" where
  "StripTrailingSlash p = (if p \<noteq> [] \<and> is_slash (last p) then butlast p else p)"

definition UpDir :: "wstring \<Rightarrow> wstring" where
  "UpDir p = (case find_last_of_slash p of None \<Rightarrow> [] | Some last_slash \<Rightarrow> take last_slash p)"

section \<open>Files\<close>

text \<open>
  A \<^verbatim>\<open>FILE*\<close> open in binary mode: the bytes of the file and the position of the
  stream. \<^verbatim>\<open>fread\<close> delivers the bytes that are there and moves past them; a seek
  succeeds when its target is a position (not negative, below \<open>2 ^ 63\<close>), also beyond
  the end of the file; \<^verbatim>\<open>fwrite\<close> overwrites in place and extends the file, filling a
  gap with zero bytes, and does nothing when there is nothing to write. The device
  itself does not fail.
\<close>

record FILE_stream =
  contents :: "byte list"
  offset :: nat

definition fread :: "nat \<Rightarrow> FILE_stream \<Rightarrow> byte list \<times> FILE_stream" where
  "fread n f =
     (let bs = take n (drop (offset f) (contents f))
      in (bs, f\<lparr>offset := offset f + length bs\<rparr>))"

definition fseek_set :: "int \<Rightarrow> FILE_stream \<Rightarrow> FILE_stream option" where
  "fseek_set target f =
     (if 0 \<le> target \<and> target < 2 ^ 63 then Some (f\<lparr>offset := nat target\<rparr>) else None)"

definition fseek_cur :: "int \<Rightarrow> FILE_stream \<Rightarrow> FILE_stream option" where
  "fseek_cur delta f = fseek_set (int (offset f) + delta) f"

definition fwrite :: "byte list \<Rightarrow> FILE_stream \<Rightarrow> FILE_stream" where
  "fwrite bs f =
     (if bs = [] then f
      else let c = contents f; at = offset f
        in f\<lparr>contents := take at c @ replicate (at - length c) 0 @ bs @ drop (at + length bs) c,
             offset := at + length bs\<rparr>)"

text \<open>\<^verbatim>\<open>SeekOrThrow\<close> of utils.cpp; \<^verbatim>\<open>ReadOrThrow\<close> is written out where it is called.\<close>

definition SeekOrThrow_cur :: "int \<Rightarrow> FILE_stream \<Rightarrow> wcx_error + FILE_stream" where
  "SeekOrThrow_cur delta f =
     (case fseek_cur delta f of None \<Rightarrow> Inl E_NOT_SUPPORTED | Some f' \<Rightarrow> Inr f')"

definition SeekOrThrow_set :: "int \<Rightarrow> FILE_stream \<Rightarrow> wcx_error + FILE_stream" where
  "SeekOrThrow_set target f =
     (case fseek_set target f of None \<Rightarrow> Inl E_NOT_SUPPORTED | Some f' \<Rightarrow> Inr f')"

section \<open>archive.hpp: the entry header\<close>

text \<open>Little-endian integers, as the x86 targets of the plugin store them.\<close>

fun le_nat :: "byte list \<Rightarrow> nat" where
  "le_nat [] = 0"
| "le_nat (b # bs) = unat b + 256 * le_nat bs"

fun le_bytes :: "nat \<Rightarrow> nat \<Rightarrow> byte list" where
  "le_bytes 0 v = []"
| "le_bytes (Suc n) v = of_nat (v mod 256) # le_bytes n (v div 256)"

definition kEntryFlagDeleted :: byte where
  "kEntryFlagDeleted = 0x01"

definition kEntryFlagCompressed :: byte where
  "kEntryFlagCompressed = 0x02"

text \<open>\<^verbatim>\<open>struct EntryHeader\<close>, packed to 28 bytes.\<close>

record EntryHeader =
  magic :: "32 word"
  flags :: byte
  attributes :: byte
  time :: "32 word"
  pack_size :: "64 word"
  unp_size :: "64 word"
  path_len :: "16 word"

definition sizeof_EntryHeader :: nat where
  "sizeof_EntryHeader = 28"

definition EntryHeader_zero :: EntryHeader where
  "EntryHeader_zero =
     \<lparr>magic = 0, flags = 0, attributes = 0, time = 0, pack_size = 0, unp_size = 0,
      path_len = 0\<rparr>"

text \<open>The struct as \<^verbatim>\<open>fread\<close> fills it from 28 bytes, and as \<^verbatim>\<open>fwrite\<close> stores it.\<close>

definition EntryHeader_of_bytes :: "byte list \<Rightarrow> EntryHeader" where
  "EntryHeader_of_bytes bs =
     \<lparr>magic = of_nat (le_nat (take 4 bs)),
      flags = bs ! 4,
      attributes = bs ! 5,
      time = of_nat (le_nat (take 4 (drop 6 bs))),
      pack_size = of_nat (le_nat (take 8 (drop 10 bs))),
      unp_size = of_nat (le_nat (take 8 (drop 18 bs))),
      path_len = of_nat (le_nat (take 2 (drop 26 bs)))\<rparr>"

definition bytes_of_EntryHeader :: "EntryHeader \<Rightarrow> byte list" where
  "bytes_of_EntryHeader h =
     le_bytes 4 (unat (magic h)) @ [flags h, attributes h] @ le_bytes 4 (unat (time h)) @
     le_bytes 8 (unat (pack_size h)) @ le_bytes 8 (unat (unp_size h)) @
     le_bytes 2 (unat (path_len h))"

fun wchars_of_bytes :: "byte list \<Rightarrow> wstring" where
  "wchars_of_bytes (lo # hi # bs) = of_nat (le_nat [lo, hi]) # wchars_of_bytes bs"
| "wchars_of_bytes bs = []"

definition bytes_of_wchars :: "wstring \<Rightarrow> byte list" where
  "bytes_of_wchars s = concat (map (\<lambda>c. le_bytes 2 (unat c)) s)"

section \<open>archive.cpp: constants\<close>

definition FILE_ATTR_DIRECTORY :: byte where
  "FILE_ATTR_DIRECTORY = 0x10"

definition kMaxFileNameLen :: nat where
  "kMaxFileNameLen = 1024"

definition kEnableCompression :: bool where
  "kEnableCompression = True"

text \<open>\<^verbatim>\<open>kFileHeader = "SMPA100A"\<close>.\<close>

definition kFileHeader :: "byte list" where
  "kFileHeader = [0x53, 0x4D, 0x50, 0x41, 0x31, 0x30, 0x30, 0x41]"

definition kEntryMagic :: "32 word" where
  "kEntryMagic = 0x1743C8F1"

definition kBufSize :: nat where
  "kBufSize = 0x10000"

definition kMinFileSizeForCompression :: "64 word" where
  "kMinFileSizeForCompression = 16"

section \<open>ArchiveBase\<close>

text \<open>
  The members an operation reads or writes. The progress callback of the host and the
  40 ms clock in front of it are outside the program: \<open>cancel_requests\<close> lists, for the
  progress reports still to come, whether the report comes back with the user's cancel
  (an exhausted list: no cancel). The byte counter and the time stamp that only feed
  the callback are left to it.
\<close>

record ArchiveBase =
  archive_file :: FILE_stream
  last_header :: EntryHeader
  last_header_path :: wstring
  cancel_requests :: "bool list"

text \<open>\<^verbatim>\<open>CallProcessDataProc(...) == 0\<close> on the reports to come, and
  \<^verbatim>\<open>UpdateBytesProcessedProgress\<close> and \<^verbatim>\<open>UpdateDirectProgress\<close> on the state: true when
  the user cancelled.\<close>

definition progress_cancelled :: "bool list \<Rightarrow> bool \<times> bool list" where
  "progress_cancelled cs = (case cs of [] \<Rightarrow> (False, []) | c # cs' \<Rightarrow> (c, cs'))"

definition UpdateProgress :: "ArchiveBase \<Rightarrow> bool \<times> ArchiveBase" where
  "UpdateProgress a =
     (case progress_cancelled (cancel_requests a) of
        (cancel, cs) \<Rightarrow> (cancel, a\<lparr>cancel_requests := cs\<rparr>))"

text \<open>\<^verbatim>\<open>ArchiveBase::ReadAndCheckHeader\<close>.\<close>

definition ReadAndCheckHeader :: "ArchiveBase \<Rightarrow> (wcx_error + unit) \<times> ArchiveBase" where
  "ReadAndCheckHeader a =
     (let (header, f) = fread (length kFileHeader) (archive_file a);
          a' = a\<lparr>archive_file := f\<rparr>
      in if length header \<noteq> length kFileHeader then (Inl E_EREAD, a')
         else if header \<noteq> kFileHeader then (Inl E_BAD_ARCHIVE, a')
         else (Inr (), a'))"

text \<open>
  \<^verbatim>\<open>ArchiveBase::ReadEntryHeader\<close>, in its two reads. \<^verbatim>\<open>fread\<close> of one 28-byte
  element counts 0 elements when fewer than 28 bytes are left; the bytes it did get are
  in the struct, the rest of which is still zero. The path is read by \<^verbatim>\<open>ReadOrThrow\<close>.
\<close>

definition fread_last_header :: "ArchiveBase \<Rightarrow> nat \<times> ArchiveBase" where
  "fread_last_header a =
     (case fread sizeof_EntryHeader (archive_file a) of
        (bs, f1) \<Rightarrow>
          (length bs div sizeof_EntryHeader,
           a\<lparr>archive_file := f1,
             last_header :=
               EntryHeader_of_bytes (bs @ replicate (sizeof_EntryHeader - length bs) 0)\<rparr>))"

definition ReadOrThrow_path :: "nat \<Rightarrow> ArchiveBase \<Rightarrow> (wcx_error + bool) \<times> ArchiveBase" where
  "ReadOrThrow_path elem_count a =
     (case fread (2 * elem_count) (archive_file a) of
        (name_buf, f2) \<Rightarrow>
          if length name_buf div 2 \<noteq> elem_count then (Inl E_EREAD, a\<lparr>archive_file := f2\<rparr>)
          else (Inr True,
                a\<lparr>archive_file := f2, last_header_path := wchars_of_bytes name_buf\<rparr>))"

definition ReadEntryHeader :: "ArchiveBase \<Rightarrow> (wcx_error + bool) \<times> ArchiveBase" where
  "ReadEntryHeader a =
     (case fread_last_header a of
        (read_count, a1) \<Rightarrow>
          if read_count = 0 then (Inr False, a1)
          else if magic (last_header a1) \<noteq> kEntryMagic then (Inl E_BAD_ARCHIVE, a1)
          else if unat (path_len (last_header a1)) = 0 then (Inl E_BAD_ARCHIVE, a1)
          else if unat (path_len (last_header a1)) > kMaxFileNameLen - 1
            then (Inl E_SMALL_BUF, a1)
          else ReadOrThrow_path (unat (path_len (last_header a1))) a1)"

text \<open>The bytes a stream still has in front of it.\<close>

definition remaining :: "ArchiveBase \<Rightarrow> byte list" where
  "remaining a = drop (offset (archive_file a)) (contents (archive_file a))"

text \<open>How a turn of a \<^verbatim>\<open>for(;;)\<close> loop ends when it does not throw.\<close>

datatype loop_ctl = LoopContinue | LoopBreak

text \<open>Skipping the payload of the entry last decoded:
  \<^verbatim>\<open>if(pack_size != 0) SeekOrThrow(f, (long long)pack_size, SEEK_CUR)\<close>.\<close>

definition skip_content :: "ArchiveBase \<Rightarrow> (wcx_error + unit) \<times> ArchiveBase" where
  "skip_content a =
     (if pack_size (last_header a) \<noteq> 0
      then case SeekOrThrow_cur (sint (pack_size (last_header a))) (archive_file a) of
             Inl e \<Rightarrow> (Inl e, a)
           | Inr f \<Rightarrow> (Inr (), a\<lparr>archive_file := f\<rparr>)
      else (Inr (), a))"

definition is_deleted :: "EntryHeader \<Rightarrow> bool" where
  "is_deleted h = (flags h AND kEntryFlagDeleted \<noteq> 0)"

definition is_compressed :: "EntryHeader \<Rightarrow> bool" where
  "is_compressed h = (flags h AND kEntryFlagCompressed \<noteq> 0)"

definition is_directory :: "EntryHeader \<Rightarrow> bool" where
  "is_directory h = (attributes h AND FILE_ATTR_DIRECTORY \<noteq> 0)"

section \<open>ReadingArchive::ReadHeaderExW\<close>

record tHeaderDataExW =
  FileName :: wstring
  FileAttr :: nat
  FileTime :: "32 word"
  PackSize :: "32 word"
  PackSizeHigh :: "32 word"
  UnpSize :: "32 word"
  UnpSizeHigh :: "32 word"

text \<open>One turn of the loop of \<^verbatim>\<open>ReadHeaderExW\<close>.\<close>

definition ReadHeaderExW_turn :: "ArchiveBase \<Rightarrow> (wcx_error + loop_ctl) \<times> ArchiveBase" where
  "ReadHeaderExW_turn a =
     (case ReadEntryHeader a of
        (Inl e, a1) \<Rightarrow> (Inl e, a1)
      | (Inr got, a1) \<Rightarrow>
          if \<not> got then (Inl E_END_ARCHIVE, a1)
          else case UpdateProgress a1 of
            (cancel, a2) \<Rightarrow>
              if cancel then (Inl E_EABORTED, a2)
              else if is_deleted (last_header a2) then
                (if pack_size (last_header a2) \<noteq> 0
                 then case skip_content a2 of
                        (Inl e, a3) \<Rightarrow> (Inl e, a3)
                      | (Inr u, a3) \<Rightarrow>
                          (case UpdateProgress a3 of
                             (cancel', a4) \<Rightarrow>
                               if cancel' then (Inl E_EABORTED, a4)
                               else (Inr LoopContinue, a4))
                 else (Inr LoopContinue, a2))
              else (Inr LoopBreak, a2))"

text \<open>
  The loop itself. A crafted packed size may send the stream backwards (the size is cast
  to \<^verbatim>\<open>long long\<close>), so the loop need not end: it runs on a counter of turns, and
  \<open>None\<close> is the loop still running when the counter is used up.
\<close>

fun ReadHeaderExW_loop :: "nat \<Rightarrow> ArchiveBase \<Rightarrow> (wcx_error + unit) option \<times> ArchiveBase" where
  "ReadHeaderExW_loop 0 a = (None, a)"
| "ReadHeaderExW_loop (Suc n) a =
     (case ReadHeaderExW_turn a of
        (Inl e, a') \<Rightarrow> (Some (Inl e), a')
      | (Inr LoopBreak, a') \<Rightarrow> (Some (Inr ()), a')
      | (Inr LoopContinue, a') \<Rightarrow> ReadHeaderExW_loop n a')"

definition fill_headerData :: "ArchiveBase \<Rightarrow> tHeaderDataExW" where
  "fill_headerData a =
     \<lparr>FileName = c_str (last_header_path a),
      FileAttr = unat (attributes (last_header a)),
      FileTime = time (last_header a),
      PackSize = ucast (pack_size (last_header a)),
      PackSizeHigh = ucast (drop_bit 32 (pack_size (last_header a))),
      UnpSize = ucast (unp_size (last_header a)),
      UnpSizeHigh = ucast (drop_bit 32 (unp_size (last_header a)))\<rparr>"

definition validate_last_header :: "ArchiveBase \<Rightarrow> wcx_error + tHeaderDataExW" where
  "validate_last_header a =
     (if is_directory (last_header a) \<and>
         (pack_size (last_header a) > 0 \<or> unp_size (last_header a) > 0)
      then Inl E_BAD_ARCHIVE
      else if \<not> is_compressed (last_header a) \<and>
              unp_size (last_header a) \<noteq> pack_size (last_header a)
      then Inl E_BAD_ARCHIVE
      else Inr (fill_headerData a))"

definition ReadHeaderExW :: "nat \<Rightarrow> ArchiveBase \<Rightarrow> (wcx_error + tHeaderDataExW) option \<times> ArchiveBase" where
  "ReadHeaderExW turns a =
     (case ReadHeaderExW_loop turns a of
        (None, a') \<Rightarrow> (None, a')
      | (Some (Inl e), a') \<Rightarrow> (Some (Inl e), a')
      | (Some (Inr u), a') \<Rightarrow> (Some (validate_last_header a'), a'))"

section \<open>ArchiveBase::DeleteIf\<close>

text \<open>Setting the Deleted flag of the entry that starts at \<open>entry_begin_offset\<close>: seek to
  its flags, one byte written, seek back to the content.\<close>

definition write_deleted_flag :: "nat \<Rightarrow> ArchiveBase \<Rightarrow> (wcx_error + unit) \<times> ArchiveBase" where
  "write_deleted_flag entry_begin_offset a =
     (let content_begin_offset = offset (archive_file a)
      in case SeekOrThrow_set (int entry_begin_offset + 4) (archive_file a) of
           Inl e \<Rightarrow> (Inl e, a)
         | Inr f1 \<Rightarrow>
             (let new_flags = flags (last_header a) OR kEntryFlagDeleted;
                  f2 = fwrite [new_flags] f1
              in case SeekOrThrow_set (int content_begin_offset) f2 of
                   Inl e \<Rightarrow> (Inl e, a\<lparr>archive_file := f2\<rparr>)
                 | Inr f3 \<Rightarrow> (Inr (), a\<lparr>archive_file := f3\<rparr>)))"

text \<open>What \<^verbatim>\<open>DeleteIf\<close> does with a live entry once its header is decoded.\<close>

definition DeleteIf_live :: "(ArchiveBase \<Rightarrow> bool) \<Rightarrow> nat \<Rightarrow> ArchiveBase \<Rightarrow> (wcx_error + loop_ctl) \<times> ArchiveBase" where
  "DeleteIf_live pred entry_begin_offset a =
     (case (if pred a then write_deleted_flag entry_begin_offset a else (Inr (), a)) of
        (Inl e, a1) \<Rightarrow> (Inl e, a1)
      | (Inr u, a1) \<Rightarrow>
          (case skip_content a1 of
             (Inl e, a2) \<Rightarrow> (Inl e, a2)
           | (Inr u', a2) \<Rightarrow>
               (case UpdateProgress a2 of
                  (cancel, a3) \<Rightarrow>
                    if cancel then (Inl E_EABORTED, a3) else (Inr LoopContinue, a3))))"

text \<open>
  One decoded header of \<^verbatim>\<open>DeleteIf\<close>: every turn of its inner loop (which passes the
  deleted entries) and of its outer loop (which handles a live one) starts by taking the
  stream position and decoding a header there. \<open>LoopBreak\<close> is the \<^verbatim>\<open>return\<close> at the
  end of the archive.
\<close>

definition DeleteIf_turn :: "(ArchiveBase \<Rightarrow> bool) \<Rightarrow> ArchiveBase \<Rightarrow> (wcx_error + loop_ctl) \<times> ArchiveBase" where
  "DeleteIf_turn pred a =
     (let entry_begin_offset = offset (archive_file a)
      in case ReadEntryHeader a of
           (Inl e, a1) \<Rightarrow> (Inl e, a1)
         | (Inr got, a1) \<Rightarrow>
             if \<not> got then (Inr LoopBreak, a1)
             else if is_deleted (last_header a1) then
               (case skip_content a1 of
                  (Inl e, a2) \<Rightarrow> (Inl e, a2)
                | (Inr u, a2) \<Rightarrow> (Inr LoopContinue, a2))
             else DeleteIf_live pred entry_begin_offset a1)"

text \<open>The two nested loops, on one counter of decoded headers (they need not end, for
  the reason given for \<open>ReadHeaderExW_loop\<close>).\<close>

fun DeleteIf :: "nat \<Rightarrow> (ArchiveBase \<Rightarrow> bool) \<Rightarrow> ArchiveBase \<Rightarrow> (wcx_error + unit) option \<times> ArchiveBase" where
  "DeleteIf 0 pred a = (None, a)"
| "DeleteIf (Suc n) pred a =
     (case DeleteIf_turn pred a of
        (Inl e, a') \<Rightarrow> (Some (Inl e), a')
      | (Inr LoopBreak, a') \<Rightarrow> (Some (Inr ()), a')
      | (Inr LoopContinue, a') \<Rightarrow> DeleteIf n pred a')"

section \<open>DeletingArchive\<close>

text \<open>\<^verbatim>\<open>DeletingArchive::ShouldDelete\<close>: the loop climbs with \<^verbatim>\<open>UpDir\<close>, which shortens
  every path that is not empty.\<close>

function ShouldDelete_from :: "wstring \<Rightarrow> wstring list \<Rightarrow> bool" where
  "ShouldDelete_from final_curr_path paths_to_delete =
     (if final_curr_path \<noteq> [] then
        (let it = lower_bound wstring_less paths_to_delete final_curr_path
         in if it \<noteq> length paths_to_delete \<and> paths_to_delete ! it = final_curr_path
            then True
            else ShouldDelete_from (UpDir final_curr_path) paths_to_delete)
      else False)"
  by pat_completeness auto
termination
proof (relation "measure (\<lambda>(p, ds). length p)")
  show "wf (measure (\<lambda>(p, ds). length p))"
    by simp
next
  fix final_curr_path :: wstring and paths_to_delete :: "wstring list" and x :: nat
  assume ne: "final_curr_path \<noteq> []"
  have bound: "i < length p" if "find_last_of_slash p = Some i" for p i
    using that by (induction p arbitrary: i) (auto split: option.splits if_splits)
  have "length (UpDir final_curr_path) < length final_curr_path"
    using ne bound [of final_curr_path]
    by (cases "find_last_of_slash final_curr_path") (auto simp: UpDir_def)
  then show "((UpDir final_curr_path, paths_to_delete), final_curr_path, paths_to_delete)
      \<in> measure (\<lambda>(p, ds). length p)"
    by simp
qed

declare ShouldDelete_from.simps [simp del]

definition ShouldDelete :: "wstring \<Rightarrow> wstring list \<Rightarrow> bool" where
  "ShouldDelete curr_path paths_to_delete =
     ShouldDelete_from (UpperCase curr_path) paths_to_delete"

text \<open>
  A list of paths as the host passes it: strings one after the other, the empty string
  ending the list.
\<close>

definition string_list :: "wstring list \<Rightarrow> wstring list" where
  "string_list l = takeWhile (\<lambda>p. p \<noteq> []) (map c_str l)"

definition ends_with :: "'a list \<Rightarrow> 'a list \<Rightarrow> bool" where
  "ends_with s suffix = (length suffix \<le> length s \<and> drop (length s - length suffix) s = suffix)"

text \<open>A path of the delete list as \<^verbatim>\<open>DeleteFilesW\<close> stores it: without a final
  \<^verbatim>\<open>*.*\<close>, without a final separator, in upper case.\<close>

definition delete_list_path :: "wstring \<Rightarrow> wstring" where
  "delete_list_path path =
     UpperCase (StripTrailingSlash
       (if ends_with path [0x2A, 0x2E, 0x2A] then take (length path - 3) path else path))"

definition paths_to_delete_of :: "wstring list \<Rightarrow> wstring list" where
  "paths_to_delete_of deleteList =
     std_sort wstring_less (map delete_list_path (string_list deleteList))"

text \<open>\<^verbatim>\<open>OpenForDelete\<close>: \<open>None\<close> is a file that \<^verbatim>\<open>_wfopen_s(..., "r+b")\<close> cannot open;
  \<^verbatim>\<open>GetFileSize\<close> leaves the stream at the start.\<close>

definition open_existing :: "byte list option \<Rightarrow> FILE_stream option" where
  "open_existing on_disk = map_option (\<lambda>bs. \<lparr>contents = bs, offset = 0\<rparr>) on_disk"

definition new_ArchiveBase :: "FILE_stream \<Rightarrow> bool list \<Rightarrow> ArchiveBase" where
  "new_ArchiveBase f cs =
     \<lparr>archive_file = f, last_header = EntryHeader_zero, last_header_path = [],
      cancel_requests = cs\<rparr>"

text \<open>
  \<^verbatim>\<open>DeletingArchive::DeleteFilesW\<close>. \<open>packedFile\<close> is what is on disk under that name
  (\<open>None\<close>: nothing that can be opened), and the second component of the result is what
  is there afterwards.
\<close>

definition DeleteFilesW ::
  "nat \<Rightarrow> bool list \<Rightarrow> byte list option \<Rightarrow> wstring list \<Rightarrow>
   (wcx_error + int) option \<times> byte list option" where
  "DeleteFilesW turns cancels packedFile deleteList =
     (case progress_cancelled cancels of
        (cancel, cs) \<Rightarrow>
          if cancel then (Some (Inl E_EABORTED), packedFile)
          else if paths_to_delete_of deleteList = [] then (Some (Inr 0), packedFile)
          else case open_existing packedFile of
            None \<Rightarrow> (Some (Inl E_ECREATE), packedFile)
          | Some f \<Rightarrow>
              (case ReadAndCheckHeader (new_ArchiveBase f cs) of
                 (Inl e, a1) \<Rightarrow> (Some (Inl e), Some (contents (archive_file a1)))
               | (Inr u, a1) \<Rightarrow>
                   (case DeleteIf turns
                           (\<lambda>a. ShouldDelete (last_header_path a) (paths_to_delete_of deleteList))
                           a1 of
                      (r, a2) \<Rightarrow>
                        (map_option (map_sum id (\<lambda>u. 0)) r,
                         Some (contents (archive_file a2))))))"

section \<open>utils.cpp: RemoveFileNameDuplicates\<close>

text \<open>
  The \<^verbatim>\<open>std::map<std::wstring, size_t, StricmpPred>\<close>: keys that neither precedes the
  other under the predicate are one key. \<open>name_map_find\<close> is \<^verbatim>\<open>find\<close>, \<open>name_map_set\<close>
  is \<^verbatim>\<open>it->second = ...\<close> on the entry found, and a new entry is put in front.
\<close>

definition same_key :: "wstring \<Rightarrow> wstring \<Rightarrow> bool" where
  "same_key a b = (\<not> StricmpPred a b \<and> \<not> StricmpPred b a)"

fun name_map_find :: "(wstring \<times> nat) list \<Rightarrow> wstring \<Rightarrow> nat option" where
  "name_map_find [] k = None"
| "name_map_find ((k', i) # m) k = (if same_key k' k then Some i else name_map_find m k)"

fun name_map_set :: "(wstring \<times> nat) list \<Rightarrow> wstring \<Rightarrow> nat \<Rightarrow> (wstring \<times> nat) list" where
  "name_map_set [] k v = []"
| "name_map_set ((k', i) # m) k v =
     (if same_key k' k then (k', v) # m else (k', i) # name_map_set m k v)"

text \<open>The first loop: \<open>paths\<close> from \<open>path_index\<close> on are still to be looked at.\<close>

fun mark_duplicates ::
  "wstring list \<Rightarrow> nat \<Rightarrow> (wstring \<times> nat) list \<Rightarrow> nat list \<Rightarrow> nat list" where
  "mark_duplicates [] path_index file_names path_indices_to_remove = path_indices_to_remove"
| "mark_duplicates (p # ps) path_index file_names path_indices_to_remove =
     (let file_name = ExtractFileName p
      in case name_map_find file_names file_name of
           None \<Rightarrow>
             mark_duplicates ps (path_index + 1) ((file_name, path_index) # file_names)
               path_indices_to_remove
         | Some previous \<Rightarrow>
             mark_duplicates ps (path_index + 1) (name_map_set file_names file_name path_index)
               (path_indices_to_remove @ [previous]))"

text \<open>The second loop removes one index: swap with the last path, then \<^verbatim>\<open>pop_back\<close>.\<close>

definition swap_remove :: "'a list \<Rightarrow> nat \<Rightarrow> 'a list" where
  "swap_remove paths index_to_remove =
     (let path_count = length paths
      in butlast
           (if index_to_remove + 1 < path_count
            then paths[index_to_remove := paths ! (path_count - 1),
                       path_count - 1 := paths ! index_to_remove]
            else paths))"

definition RemoveFileNameDuplicates :: "wstring list \<Rightarrow> wstring list" where
  "RemoveFileNameDuplicates paths =
     foldl swap_remove paths (rev (std_sort (<) (mark_duplicates paths 0 [] [])))"

section \<open>zlib\<close>

text \<open>
  The library is bundled with the plugin and is not part of it: the model takes it as a
  parameter. A \<^verbatim>\<open>z_stream\<close> is the library's own state \<open>'z\<close> and the input handed over and
  not yet consumed (\<^verbatim>\<open>avail_in\<close> is its length). A call of \<^verbatim>\<open>inflate\<close> or \<^verbatim>\<open>deflate\<close> gets
  the state, that input, the room in the output buffer (and whether to finish), and
  answers with its result code, the new state, how many input bytes it consumed and the
  output bytes it produced.
\<close>

datatype zret =
    Z_OK
  | Z_STREAM_END
  | Z_NEED_DICT
  | Z_ERRNO
  | Z_STREAM_ERROR
  | Z_DATA_ERROR
  | Z_MEM_ERROR
  | Z_BUF_ERROR
  | Z_VERSION_ERROR

record 'z zlib_library =
  inflateInit :: "zret \<times> 'z"
  inflate :: "'z \<Rightarrow> byte list \<Rightarrow> nat \<Rightarrow> zret \<times> 'z \<times> nat \<times> byte list"
  deflateInit :: "zret \<times> 'z"
  deflate :: "'z \<Rightarrow> byte list \<Rightarrow> nat \<Rightarrow> bool \<Rightarrow> zret \<times> 'z \<times> nat \<times> byte list"

record 'z z_stream =
  internal :: 'z
  next_in :: "byte list"

text \<open>\<^verbatim>\<open>ZlibResultToWcxException\<close>: the code it throws, if it throws.\<close>

fun ZlibResultToWcxException :: "zret \<Rightarrow> wcx_error option" where
  "ZlibResultToWcxException Z_OK = None"
| "ZlibResultToWcxException Z_MEM_ERROR = Some E_NO_MEMORY"
| "ZlibResultToWcxException Z_STREAM_ERROR = Some E_BAD_ARCHIVE"
| "ZlibResultToWcxException r = Some E_BAD_DATA"

text \<open>One call with the whole output buffer free: the result code, the stream after
  it, and the bytes now in the output buffer.\<close>

definition call_inflate :: "'z zlib_library \<Rightarrow> 'z z_stream \<Rightarrow> zret \<times> 'z z_stream \<times> byte list" where
  "call_inflate zl zs =
     (case inflate zl (internal zs) (next_in zs) kBufSize of
        (r, st, consumed, out) \<Rightarrow>
          (r, \<lparr>internal = st, next_in = drop consumed (next_in zs)\<rparr>, take kBufSize out))"

definition call_deflate ::
  "'z zlib_library \<Rightarrow> 'z z_stream \<Rightarrow> bool \<Rightarrow> zret \<times> 'z z_stream \<times> byte list" where
  "call_deflate zl zs finish =
     (case deflate zl (internal zs) (next_in zs) kBufSize finish of
        (r, st, consumed, out) \<Rightarrow>
          (r, \<lparr>internal = st, next_in = drop consumed (next_in zs)\<rparr>, take kBufSize out))"

section \<open>ReadingArchive::UnpackFileContent\<close>

text \<open>The variables of the decompression loop; the source file is the archive.\<close>

record 'z unpack_vars =
  u_stream :: "'z z_stream"
  src_bytes_left :: nat
  total_bytes_written :: nat
  u_dst_file :: FILE_stream
  u_archive :: ArchiveBase

text \<open>The first step of a turn: more input when the buffer is empty and the entry has
  bytes left. The result is \<^verbatim>\<open>made_progress\<close> so far.\<close>

definition refill_input :: "'z unpack_vars \<Rightarrow> (wcx_error + bool) \<times> 'z unpack_vars" where
  "refill_input v =
     (if next_in (u_stream v) = [] \<and> src_bytes_left v > 0 then
        (let bytes_to_read = min (src_bytes_left v) kBufSize
         in case fread bytes_to_read (archive_file (u_archive v)) of
              (bs, f) \<Rightarrow>
                if length bs < bytes_to_read
                then (Inl E_EREAD, v\<lparr>u_archive := (u_archive v)\<lparr>archive_file := f\<rparr>\<rparr>)
                else (Inr True,
                      v\<lparr>u_archive := (u_archive v)\<lparr>archive_file := f\<rparr>,
                        u_stream := (u_stream v)\<lparr>next_in := bs\<rparr>,
                        src_bytes_left := src_bytes_left v - length bs\<rparr>))
      else (Inr False, v))"

text \<open>The rest of the turn, after \<^verbatim>\<open>inflate\<close> has answered \<open>zlib_result\<close> with \<open>out\<close> in the
  output buffer.\<close>

definition after_inflate ::
  "bool \<Rightarrow> zret \<Rightarrow> byte list \<Rightarrow> 'z unpack_vars \<Rightarrow> (wcx_error + loop_ctl) \<times> 'z unpack_vars" where
  "after_inflate refilled zlib_result out v =
     (case (if zlib_result \<noteq> Z_OK \<and> zlib_result \<noteq> Z_STREAM_END
            then ZlibResultToWcxException zlib_result else None) of
        Some e \<Rightarrow> (Inl e, v)
      | None \<Rightarrow>
          (let v1 = (if out \<noteq> []
                     then v\<lparr>u_dst_file := fwrite out (u_dst_file v),
                            total_bytes_written := total_bytes_written v + length out\<rparr>
                     else v);
               made_progress = (refilled \<or> out \<noteq> [])
           in case UpdateProgress (u_archive v1) of
                (cancel, a) \<Rightarrow>
                  if cancel then (Inl E_EABORTED, v1\<lparr>u_archive := a\<rparr>)
                  else if zlib_result = Z_STREAM_END then (Inr LoopBreak, v1\<lparr>u_archive := a\<rparr>)
                  else if \<not> made_progress then (Inl E_BAD_ARCHIVE, v1\<lparr>u_archive := a\<rparr>)
                  else (Inr LoopContinue, v1\<lparr>u_archive := a\<rparr>)))"

definition inflate_turn :: "'z zlib_library \<Rightarrow> 'z unpack_vars \<Rightarrow> (wcx_error + loop_ctl) \<times> 'z unpack_vars" where
  "inflate_turn zl v =
     (case refill_input v of
        (Inl e, v1) \<Rightarrow> (Inl e, v1)
      | (Inr refilled, v1) \<Rightarrow>
          (case call_inflate zl (u_stream v1) of
             (zlib_result, zs, out) \<Rightarrow>
               after_inflate refilled zlib_result out (v1\<lparr>u_stream := zs\<rparr>)))"

text \<open>The loop, on a counter of turns: a library that keeps producing output keeps it
  running.\<close>

fun inflate_loop ::
  "nat \<Rightarrow> 'z zlib_library \<Rightarrow> 'z unpack_vars \<Rightarrow> (wcx_error + unit) option \<times> 'z unpack_vars" where
  "inflate_loop 0 zl v = (None, v)"
| "inflate_loop (Suc n) zl v =
     (case inflate_turn zl v of
        (Inl e, v') \<Rightarrow> (Some (Inl e), v')
      | (Inr LoopBreak, v') \<Rightarrow> (Some (Inr ()), v')
      | (Inr LoopContinue, v') \<Rightarrow> inflate_loop n zl v')"

text \<open>The loop of the branch that copies a stored payload.\<close>

function copy_content ::
  "nat \<Rightarrow> FILE_stream \<Rightarrow> ArchiveBase \<Rightarrow> (wcx_error + unit) \<times> FILE_stream \<times> ArchiveBase" where
  "copy_content bytes_left dst a =
     (if bytes_left > 0 then
        (case fread (min bytes_left kBufSize) (archive_file a) of
           (bs, f) \<Rightarrow>
             if length bs < min bytes_left kBufSize
             then (Inl E_EREAD, dst, a\<lparr>archive_file := f\<rparr>)
             else (case UpdateProgress (a\<lparr>archive_file := f\<rparr>) of
                     (cancel, a') \<Rightarrow>
                       if cancel then (Inl E_EABORTED, fwrite bs dst, a')
                       else copy_content (bytes_left - min bytes_left kBufSize)
                              (fwrite bs dst) a'))
      else (Inr (), dst, a))"
  by pat_completeness auto
termination
  by (relation "measure (\<lambda>(bytes_left, dst, a). bytes_left)") (auto simp: kBufSize_def)

declare copy_content.simps [simp del]

text \<open>\<^verbatim>\<open>ReadingArchive::UnpackFileContent\<close>: the result, the destination file and the
  archive.\<close>

definition UnpackFileContent ::
  "nat \<Rightarrow> 'z zlib_library \<Rightarrow> FILE_stream \<Rightarrow> ArchiveBase \<Rightarrow> 64 word \<Rightarrow> 64 word \<Rightarrow> bool \<Rightarrow>
   (wcx_error + unit) option \<times> FILE_stream \<times> ArchiveBase" where
  "UnpackFileContent turns zl dst a dst_file_size src_file_size enable_compression =
     (if enable_compression then
        (case inflateInit zl of
           (zlib_result, st) \<Rightarrow>
             (case ZlibResultToWcxException zlib_result of
                Some e \<Rightarrow> (Some (Inl e), dst, a)
              | None \<Rightarrow>
                  (case inflate_loop turns zl
                          \<lparr>u_stream = \<lparr>internal = st, next_in = []\<rparr>,
                           src_bytes_left = unat src_file_size, total_bytes_written = 0,
                           u_dst_file = dst, u_archive = a\<rparr> of
                     (None, v) \<Rightarrow> (None, u_dst_file v, u_archive v)
                   | (Some (Inl e), v) \<Rightarrow> (Some (Inl e), u_dst_file v, u_archive v)
                   | (Some (Inr u), v) \<Rightarrow>
                       if total_bytes_written v \<noteq> unat dst_file_size
                       then (Some (Inl E_BAD_ARCHIVE), u_dst_file v, u_archive v)
                       else (Some (Inr ()), u_dst_file v, u_archive v))))
      else (case copy_content (unat src_file_size) dst a of
              (r, dst', a') \<Rightarrow> (Some r, dst', a')))"

section \<open>PackingArchive\<close>

text \<open>
  What Windows knows of a source path: the answer of \<^verbatim>\<open>GetFileAttributesExW\<close> (attribute
  bits and size), the last write time as the two conversions to a DOS date and time give
  it (\<open>None\<close> when one of them fails), and the bytes \<^verbatim>\<open>_wfopen_s(..., "rb")\<close> gives access
  to (\<open>None\<close> when the file cannot be opened). A path Windows does not know has no such
  record.
\<close>

record win32_file =
  dwFileAttributes :: "32 word"
  nFileSize :: "64 word"
  dos_date_time :: "32 word option"
  file_bytes :: "byte list option"

definition FILE_ATTRIBUTE_DIRECTORY :: "32 word" where
  "FILE_ATTRIBUTE_DIRECTORY = 0x10"

text \<open>\<^verbatim>\<open>WindowsAttributesToWcxAttributes\<close>: read-only, hidden, system, directory and
  archive have the same bits on both sides.\<close>

definition WindowsAttributesToWcxAttributes :: "32 word \<Rightarrow> byte" where
  "WindowsAttributesToWcxAttributes windows_attr =
     (if windows_attr AND 0x1 \<noteq> 0 then 0x1 else 0) OR
     (if windows_attr AND 0x2 \<noteq> 0 then 0x2 else 0) OR
     (if windows_attr AND 0x4 \<noteq> 0 then 0x4 else 0) OR
     (if windows_attr AND 0x10 \<noteq> 0 then 0x10 else 0) OR
     (if windows_attr AND 0x20 \<noteq> 0 then 0x20 else 0)"

definition EnableCompressionForFile :: "64 word \<Rightarrow> bool" where
  "EnableCompressionForFile file_size =
     (kEnableCompression \<and> file_size \<ge> kMinFileSizeForCompression)"

definition GetFileAttributes ::
  "(wstring \<Rightarrow> win32_file option) \<Rightarrow> EntryHeader \<Rightarrow> wstring \<Rightarrow> wcx_error + EntryHeader" where
  "GetFileAttributes files header full_path =
     (case files full_path of
        None \<Rightarrow> Inl E_EREAD
      | Some windows_attr \<Rightarrow>
          (case dos_date_time windows_attr of
             None \<Rightarrow> Inl E_UNKNOWN_FORMAT
           | Some t \<Rightarrow>
               Inr (header
                 \<lparr>unp_size :=
                    (if dwFileAttributes windows_attr AND FILE_ATTRIBUTE_DIRECTORY = 0
                     then nFileSize windows_attr else 0),
                  time := t,
                  attributes :=
                    WindowsAttributesToWcxAttributes (dwFileAttributes windows_attr)\<rparr>)))"

definition WriteEntryHeader :: "EntryHeader \<Rightarrow> wstring \<Rightarrow> ArchiveBase \<Rightarrow> ArchiveBase" where
  "WriteEntryHeader header path a =
     a\<lparr>archive_file :=
         fwrite (bytes_of_wchars path) (fwrite (bytes_of_EntryHeader header) (archive_file a))\<rparr>"

text \<open>The variables of the compression loop; the destination file is the archive.\<close>

record 'z pack_vars =
  p_stream :: "'z z_stream"
  is_src_end :: bool
  out_bytes_read :: nat
  out_bytes_written :: nat
  p_src_file :: FILE_stream
  p_archive :: ArchiveBase

definition refill_source :: "'z pack_vars \<Rightarrow> bool \<times> 'z pack_vars" where
  "refill_source v =
     (if next_in (p_stream v) = [] \<and> \<not> is_src_end v then
        (case fread kBufSize (p_src_file v) of
           (bs, f) \<Rightarrow>
             (True,
              v\<lparr>p_src_file := f,
                is_src_end := (length bs < kBufSize),
                p_stream := (p_stream v)\<lparr>next_in := bs\<rparr>,
                out_bytes_read := out_bytes_read v + length bs\<rparr>))
      else (False, v))"

definition after_deflate ::
  "bool \<Rightarrow> zret \<Rightarrow> byte list \<Rightarrow> 'z pack_vars \<Rightarrow> (wcx_error + loop_ctl) \<times> 'z pack_vars" where
  "after_deflate refilled zlib_result out v =
     (case (if zlib_result \<noteq> Z_OK \<and> zlib_result \<noteq> Z_STREAM_END
            then ZlibResultToWcxException zlib_result else None) of
        Some e \<Rightarrow> (Inl e, v)
      | None \<Rightarrow>
          (let v1 = (if out \<noteq> []
                     then v\<lparr>p_archive :=
                              (p_archive v)\<lparr>archive_file := fwrite out (archive_file (p_archive v))\<rparr>,
                            out_bytes_written := out_bytes_written v + length out\<rparr>
                     else v);
               made_progress = (refilled \<or> out \<noteq> [])
           in if zlib_result = Z_STREAM_END then (Inr LoopBreak, v1)
              else if \<not> made_progress then (Inl E_BAD_ARCHIVE, v1)
              else (Inr LoopContinue, v1)))"

definition deflate_turn :: "'z zlib_library \<Rightarrow> 'z pack_vars \<Rightarrow> (wcx_error + loop_ctl) \<times> 'z pack_vars" where
  "deflate_turn zl v =
     (case refill_source v of
        (refilled, v1) \<Rightarrow>
          (case call_deflate zl (p_stream v1) (is_src_end v1) of
             (zlib_result, zs, out) \<Rightarrow>
               after_deflate refilled zlib_result out (v1\<lparr>p_stream := zs\<rparr>)))"

fun deflate_loop ::
  "nat \<Rightarrow> 'z zlib_library \<Rightarrow> 'z pack_vars \<Rightarrow> (wcx_error + unit) option \<times> 'z pack_vars" where
  "deflate_loop 0 zl v = (None, v)"
| "deflate_loop (Suc n) zl v =
     (case deflate_turn zl v of
        (Inl e, v') \<Rightarrow> (Some (Inl e), v')
      | (Inr LoopBreak, v') \<Rightarrow> (Some (Inr ()), v')
      | (Inr LoopContinue, v') \<Rightarrow> deflate_loop n zl v')"

text \<open>The \<^verbatim>\<open>do ... while\<close> loop that stores a file as it is: the bytes read so far, the
  source and the archive. A read shorter than the buffer is the end of the file.\<close>

function store_content :: "nat \<Rightarrow> FILE_stream \<Rightarrow> ArchiveBase \<Rightarrow> nat \<times> FILE_stream \<times> ArchiveBase" where
  "store_content bytes_read_so_far src a =
     (case fread kBufSize src of
        (bs, src') \<Rightarrow>
          (let a' = (if bs \<noteq> [] then a\<lparr>archive_file := fwrite bs (archive_file a)\<rparr> else a);
               n = (if bs \<noteq> [] then bytes_read_so_far + length bs else bytes_read_so_far)
           in if length bs = kBufSize then store_content n src' a' else (n, src', a')))"
  by pat_completeness auto
termination
  by (relation "measure (\<lambda>(n, src, a). length (contents src) - offset src)")
    (auto simp: fread_def Let_def kBufSize_def)

declare store_content.simps [simp del]

text \<open>\<^verbatim>\<open>PackingArchive::PackFileContent\<close>: bytes written and bytes read, and the archive.\<close>

definition PackFileContent ::
  "nat \<Rightarrow> 'z zlib_library \<Rightarrow> ArchiveBase \<Rightarrow> FILE_stream \<Rightarrow> 64 word \<Rightarrow> bool \<Rightarrow>
   (wcx_error + nat \<times> nat) option \<times> ArchiveBase" where
  "PackFileContent turns zl a src src_file_size enable_compression =
     (if enable_compression then
        (case deflateInit zl of
           (zlib_result, st) \<Rightarrow>
             (case ZlibResultToWcxException zlib_result of
                Some e \<Rightarrow> (Some (Inl e), a)
              | None \<Rightarrow>
                  (case deflate_loop turns zl
                          \<lparr>p_stream = \<lparr>internal = st, next_in = []\<rparr>, is_src_end = False,
                           out_bytes_read = 0, out_bytes_written = 0, p_src_file = src,
                           p_archive = a\<rparr> of
                     (None, v) \<Rightarrow> (None, p_archive v)
                   | (Some (Inl e), v) \<Rightarrow> (Some (Inl e), p_archive v)
                   | (Some (Inr u), v) \<Rightarrow>
                       if out_bytes_read v \<noteq> unat src_file_size
                       then (Some (Inl E_EREAD), p_archive v)
                       else (Some (Inr (out_bytes_written v, out_bytes_read v)), p_archive v))))
      else if src_file_size = 0 then (Some (Inr (0, 0)), a)
      else (case store_content 0 src a of
              (n, src', a') \<Rightarrow>
                if n \<noteq> unat src_file_size then (Some (Inl E_EREAD), a')
                else (Some (Inr (n, n)), a')))"

text \<open>Writing the packed size into the header at \<open>entry_begin_offset\<close> once it is known.\<close>

definition patch_pack_size :: "nat \<Rightarrow> nat \<Rightarrow> ArchiveBase \<Rightarrow> (wcx_error + unit) \<times> ArchiveBase" where
  "patch_pack_size entry_begin_offset bytes_written a =
     (let entry_end_offset = offset (archive_file a)
      in case SeekOrThrow_set (int entry_begin_offset + 4 + 1 + 1 + 4) (archive_file a) of
           Inl e \<Rightarrow> (Inl e, a)
         | Inr f1 \<Rightarrow>
             (let f2 = fwrite (le_bytes 8 bytes_written) f1
              in case SeekOrThrow_set (int entry_end_offset) f2 of
                   Inl e \<Rightarrow> (Inl e, a\<lparr>archive_file := f2\<rparr>)
                 | Inr f3 \<Rightarrow> (Inr (), a\<lparr>archive_file := f3\<rparr>)))"

text \<open>The header \<^verbatim>\<open>PackFile\<close> writes for a source whose attributes are in \<open>h\<close>.\<close>

definition entry_header_for :: "EntryHeader \<Rightarrow> wstring \<Rightarrow> EntryHeader" where
  "entry_header_for h path =
     h\<lparr>pack_size := unp_size h,
       flags := (if EnableCompressionForFile (unp_size h)
                 then flags h OR kEntryFlagCompressed else flags h),
       magic := kEntryMagic,
       path_len := of_nat (length path)\<rparr>"

text \<open>\<^verbatim>\<open>PackingArchive::PackFile\<close>; the result is \<^verbatim>\<open>out_is_directory\<close>.\<close>

definition PackFile ::
  "nat \<Rightarrow> 'z zlib_library \<Rightarrow> (wstring \<Rightarrow> win32_file option) \<Rightarrow> wstring \<Rightarrow> wstring \<Rightarrow>
   ArchiveBase \<Rightarrow> (wcx_error + bool) option \<times> ArchiveBase" where
  "PackFile turns zl files absolute_path archive_path a =
     (let path = StripTrailingSlash archive_path
      in case GetFileAttributes files EntryHeader_zero absolute_path of
           Inl e \<Rightarrow> (Some (Inl e), a)
         | Inr h \<Rightarrow>
             (let entry_header = entry_header_for h path;
                  enable_compression_for_file = EnableCompressionForFile (unp_size h);
                  entry_begin_offset = offset (archive_file a);
                  a1 = WriteEntryHeader entry_header path a
              in if is_directory entry_header then (Some (Inr True), a1)
                 else case Option.bind (files absolute_path) file_bytes of
                   None \<Rightarrow> (Some (Inl E_EOPEN), a1)
                 | Some src_bytes \<Rightarrow>
                     (case PackFileContent turns zl a1 \<lparr>contents = src_bytes, offset = 0\<rparr>
                             (unp_size entry_header) enable_compression_for_file of
                        (None, a2) \<Rightarrow> (None, a2)
                      | (Some (Inl e), a2) \<Rightarrow> (Some (Inl e), a2)
                      | (Some (Inr (bytes_written, bytes_read)), a2) \<Rightarrow>
                          if enable_compression_for_file \<and> bytes_written \<noteq> bytes_read
                          then (case patch_pack_size entry_begin_offset bytes_written a2 of
                                  (Inl e, a3) \<Rightarrow> (Some (Inl e), a3)
                                | (Inr u, a3) \<Rightarrow> (Some (Inr False), a3))
                          else (Some (Inr False), a2))))"

text \<open>The candidate list of \<^verbatim>\<open>PackFilesW\<close>: the paths of the add list (directories,
  which end in a backslash, only when paths are saved), without duplicate file names
  when paths are not saved, sorted; and the paths they get in the archive.\<close>

definition relative_paths_to_add_of :: "bool \<Rightarrow> wstring list \<Rightarrow> wstring list" where
  "relative_paths_to_add_of save_paths addList =
     (let listed = map StripTrailingSlash
                     (filter (\<lambda>p. save_paths \<or> last p \<noteq> 0x5C) (string_list addList))
      in std_sort StricmpPred
           (if \<not> save_paths then RemoveFileNameDuplicates listed else listed))"

definition archive_path_of :: "bool \<Rightarrow> wstring \<Rightarrow> wstring \<Rightarrow> wstring" where
  "archive_path_of save_paths subPath relative_path =
     (if save_paths then CombinePath subPath relative_path
      else CombinePath subPath (ExtractFileName relative_path))"

definition archive_paths_to_add_of :: "bool \<Rightarrow> wstring \<Rightarrow> wstring list \<Rightarrow> wstring list" where
  "archive_paths_to_add_of save_paths subPath relative_paths_to_add =
     map (archive_path_of save_paths subPath) relative_paths_to_add"

text \<open>The predicate \<^verbatim>\<open>PackFilesW\<close> hands to \<^verbatim>\<open>DeleteIf\<close>.\<close>

definition is_path_to_add :: "wstring list \<Rightarrow> ArchiveBase \<Rightarrow> bool" where
  "is_path_to_add archive_paths_to_add a =
     (let it = lower_bound StricmpPred archive_paths_to_add (last_header_path a)
      in it \<noteq> length archive_paths_to_add \<and>
         wcsicmp (c_str (last_header_path a)) (c_str (archive_paths_to_add ! it)) = 0)"

text \<open>\<^verbatim>\<open>OpenForPack\<close>: the stream and \<^verbatim>\<open>created_new_archive_\<close>. \<open>can_create\<close> says
  whether \<^verbatim>\<open>_wfopen_s(..., "wb")\<close> would succeed.\<close>

definition OpenForPack :: "byte list option \<Rightarrow> bool \<Rightarrow> wcx_error + FILE_stream \<times> bool" where
  "OpenForPack on_disk can_create =
     (case open_existing on_disk of
        Some f \<Rightarrow> Inr (f, False)
      | None \<Rightarrow>
          if can_create then Inr (fwrite kFileHeader \<lparr>contents = [], offset = 0\<rparr>, True)
          else Inl E_ECREATE)"

text \<open>The packing loop over the candidates and their archive paths; the result is
  \<^verbatim>\<open>path_is_directory\<close>.\<close>

fun pack_candidates ::
  "nat \<Rightarrow> 'z zlib_library \<Rightarrow> (wstring \<Rightarrow> win32_file option) \<Rightarrow> wstring \<Rightarrow>
   (wstring \<times> wstring) list \<Rightarrow> ArchiveBase \<Rightarrow> (wcx_error + bool list) option \<times> ArchiveBase" where
  "pack_candidates turns zl files srcPath [] a = (Some (Inr []), a)"
| "pack_candidates turns zl files srcPath ((relative_path, archive_path) # rest) a =
     (case UpdateProgress a of
        (cancel, a1) \<Rightarrow>
          if cancel then (Some (Inl E_EABORTED), a1)
          else (case PackFile turns zl files (CombinePath srcPath relative_path) archive_path a1 of
                  (None, a2) \<Rightarrow> (None, a2)
                | (Some (Inl e), a2) \<Rightarrow> (Some (Inl e), a2)
                | (Some (Inr d), a2) \<Rightarrow>
                    (case pack_candidates turns zl files srcPath rest a2 of
                       (Some (Inr ds), a3) \<Rightarrow> (Some (Inr (d # ds)), a3)
                     | (r, a3) \<Rightarrow> (r, a3))))"

text \<open>Deleting the sources, last candidate first; \<open>can_delete path is_directory\<close> says
  whether \<^verbatim>\<open>RemoveDirectoryW\<close> or \<^verbatim>\<open>DeleteFileW\<close> succeeds on the path.\<close>

fun delete_sources :: "(wstring \<Rightarrow> bool \<Rightarrow> bool) \<Rightarrow> (wstring \<times> bool) list \<Rightarrow> wcx_error + unit" where
  "delete_sources can_delete [] = Inr ()"
| "delete_sources can_delete ((path, is_dir) # rest) =
     (if can_delete path is_dir then delete_sources can_delete rest else Inl E_EWRITE)"

text \<open>The host side of a pack: the sources, whether the archive can be created, and
  whether a source can be deleted.\<close>

record pack_host =
  source_files :: "wstring \<Rightarrow> win32_file option"
  can_create :: bool
  can_delete :: "wstring \<Rightarrow> bool \<Rightarrow> bool"

text \<open>
  \<^verbatim>\<open>PackingArchive::PackFilesW\<close>, the two flags given apart. As for \<open>DeleteFilesW\<close>,
  \<open>packedFile\<close> is what is on disk before and the second component of the result what is
  there after; \<open>turns\<close> bounds each loop that need not end.
\<close>

definition PackFilesW ::
  "nat \<Rightarrow> 'z zlib_library \<Rightarrow> pack_host \<Rightarrow> bool list \<Rightarrow> byte list option \<Rightarrow>
   wstring \<Rightarrow> wstring \<Rightarrow> wstring list \<Rightarrow> bool \<Rightarrow> bool \<Rightarrow>
   (wcx_error + int) option \<times> byte list option" where
  "PackFilesW turns zl host cancels packedFile subPath srcPath addList delete_source_files save_paths =
     (case progress_cancelled cancels of
        (cancel, cs) \<Rightarrow>
          if cancel then (Some (Inl E_EABORTED), packedFile)
          else
            (let relative_paths_to_add = relative_paths_to_add_of save_paths addList;
                 archive_paths_to_add =
                   archive_paths_to_add_of save_paths (c_str subPath) relative_paths_to_add
             in case OpenForPack packedFile (can_create host) of
                  Inl e \<Rightarrow> (Some (Inl e), packedFile)
                | Inr (f, created_new_archive) \<Rightarrow>
                    (case (if \<not> created_new_archive
                           then (case ReadAndCheckHeader (new_ArchiveBase f cs) of
                                   (Inl e, a1) \<Rightarrow> (Some (Inl e), a1)
                                 | (Inr u, a1) \<Rightarrow>
                                     DeleteIf turns (is_path_to_add archive_paths_to_add) a1)
                           else (Some (Inr ()), new_ArchiveBase f cs)) of
                       (None, a2) \<Rightarrow> (None, Some (contents (archive_file a2)))
                     | (Some (Inl e), a2) \<Rightarrow> (Some (Inl e), Some (contents (archive_file a2)))
                     | (Some (Inr u), a2) \<Rightarrow>
                         (case pack_candidates turns zl (source_files host) (c_str srcPath)
                                 (zip relative_paths_to_add archive_paths_to_add) a2 of
                            (None, a3) \<Rightarrow> (None, Some (contents (archive_file a3)))
                          | (Some (Inl e), a3) \<Rightarrow>
                              (Some (Inl e), Some (contents (archive_file a3)))
                          | (Some (Inr path_is_directory), a3) \<Rightarrow>
                              (if delete_source_files
                               then (case delete_sources (can_delete host)
                                            (rev (zip (map (CombinePath (c_str srcPath))
                                                         relative_paths_to_add)
                                                    path_is_directory)) of
                                       Inl e \<Rightarrow> Some (Inl e)
                                     | Inr u' \<Rightarrow> Some (Inr 0))
                               else Some (Inr 0),
                               Some (contents (archive_file a3)))))))"

section \<open>Notions the statements use\<close>

text \<open>A session on given bytes, at the start, with no cancel to come.\<close>

definition stream_on :: "byte list \<Rightarrow> ArchiveBase" where
  "stream_on bs = new_ArchiveBase \<lparr>contents = bs, offset = 0\<rparr> []"

text \<open>The state once the 28 bytes of a header have been read.\<close>

definition after_header :: "ArchiveBase \<Rightarrow> ArchiveBase" where
  "after_header a =
     a\<lparr>archive_file := (archive_file a)\<lparr>offset := offset (archive_file a) + 28\<rparr>,
       last_header := EntryHeader_of_bytes (take 28 (remaining a))\<rparr>"

text \<open>A strict weak order, as \<^verbatim>\<open>std::sort\<close> and \<^verbatim>\<open>std::lower_bound\<close> ask for.\<close>

definition strict_weak_order :: "('a \<Rightarrow> 'a \<Rightarrow> bool) \<Rightarrow> bool" where
  "strict_weak_order lt \<longleftrightarrow>
     (\<forall>a. \<not> lt a a) \<and> (\<forall>a b c. lt a b \<longrightarrow> lt b c \<longrightarrow> lt a c) \<and>
     (\<forall>a b c. \<not> lt a b \<longrightarrow> \<not> lt b c \<longrightarrow> \<not> lt a c)"

definition ordered_by :: "('a \<Rightarrow> 'a \<Rightarrow> bool) \<Rightarrow> 'a list \<Rightarrow> bool" where
  "ordered_by lt xs = sorted_wrt (\<lambda>a b. \<not> lt b a) xs"

text \<open>What a case-insensitive comparison sees of a string.\<close>

definition fold_key :: "wstring \<Rightarrow> wstring" where
  "fold_key s = map towlower (c_str s)"








text \<open>A stored (not compressed) live entry of a plain file, as \<^verbatim>\<open>PackFile\<close> writes it for
  a source with the archive attribute and DOS time 0.\<close>

definition stored_entry :: "wstring \<Rightarrow> byte list \<Rightarrow> byte list" where
  "stored_entry path payload =
     bytes_of_EntryHeader
       \<lparr>magic = kEntryMagic, flags = 0, attributes = 0x20, time = 0,
        pack_size = of_nat (length payload), unp_size = of_nat (length payload),
        path_len = of_nat (length path)\<rparr> @
     bytes_of_wchars path @ payload"

text \<open>An entry record: its header, its path and its payload, and its bytes in the file.\<close>

record archive_entry =
  e_header :: EntryHeader
  e_path :: wstring
  e_payload :: "byte list"

definition entry_bytes :: "archive_entry \<Rightarrow> byte list" where
  "entry_bytes e = bytes_of_EntryHeader (e_header e) @ bytes_of_wchars (e_path e) @ e_payload e"

text \<open>The header of a well-formed record has the magic and tells the lengths of the path
  (1 to 1023 code units) and of the payload.\<close>

definition entry_ok :: "archive_entry \<Rightarrow> bool" where
  "entry_ok e \<longleftrightarrow>
     magic (e_header e) = kEntryMagic \<and>
     unat (path_len (e_header e)) = length (e_path e) \<and>
     0 < length (e_path e) \<and> length (e_path e) \<le> 1023 \<and>
     unat (pack_size (e_header e)) = length (e_payload e)"

definition archive_bytes :: "archive_entry list \<Rightarrow> byte list" where
  "archive_bytes es = kFileHeader @ concat (map entry_bytes es)"

definition tombstoned :: "archive_entry \<Rightarrow> archive_entry" where
  "tombstoned e = e\<lparr>e_header := (e_header e)\<lparr>flags := flags (e_header e) OR kEntryFlagDeleted\<rparr>\<rparr>"

text \<open>What an erase with the predicate \<open>P\<close> on paths makes of an entry.\<close>

definition erase_entry :: "(wstring \<Rightarrow> bool) \<Rightarrow> archive_entry \<Rightarrow> archive_entry" where
  "erase_entry P e = (if \<not> is_deleted (e_header e) \<and> P (e_path e) then tombstoned e else e)"

text \<open>The stream stands in front of the record \<open>e\<close>, after the bytes \<open>pre\<close>.\<close>

definition at_entry :: "ArchiveBase \<Rightarrow> byte list \<Rightarrow> archive_entry \<Rightarrow> byte list \<Rightarrow> bool" where
  "at_entry a pre e post \<longleftrightarrow>
     contents (archive_file a) = pre @ entry_bytes e @ post \<and>
     offset (archive_file a) = length pre"

definition no_cancel :: "ArchiveBase \<Rightarrow> bool" where
  "no_cancel a \<longleftrightarrow> True \<notin> set (cancel_requests a)"

text \<open>The record of a plain file stored as it is: live, archive attribute, DOS time 0.\<close>

definition file_entry :: "wstring \<Rightarrow> byte list \<Rightarrow> archive_entry" where
  "file_entry p bs =
     \<lparr>e_header =
        \<lparr>magic = kEntryMagic, flags = 0, attributes = 0x20, time = 0,
         pack_size = of_nat (length bs), unp_size = of_nat (length bs),
         path_len = of_nat (length p)\<rparr>,
      e_path = p, e_payload = bs\<rparr>"

text \<open>The upper-cased path, or a path reached from it by stripping the last component
  again and again while something is left, is in the deletion set as stored.\<close>

definition in_deletion_set :: "wstring list \<Rightarrow> wstring \<Rightarrow> bool" where
  "in_deletion_set deleteList p \<longleftrightarrow>
     (\<exists>k. (UpDir ^^ k) (UpperCase p) \<noteq> [] \<and>
          (UpDir ^^ k) (UpperCase p) \<in> delete_list_path ` set (string_list deleteList))"

text \<open>An archive of three files, two of them below \<^verbatim>\<open>Dir\<close>.\<close>

definition three_files :: "archive_entry list" where
  "three_files =
     [file_entry (wpath [''Dir'', ''A.txt'']) [1],
      file_entry (wpath [''Dir'', ''Sub'', ''B.txt'']) [2],
      file_entry (W ''Other.txt'') [3]]"


chapter \<open>Properties\<close>

section \<open>The entry-header decoder\<close>

lemma fread_eq:
  "fread n f = (take n (drop (offset f) (contents f)),
                f\<lparr>offset := offset f + min n (length (contents f) - offset f)\<rparr>)"
  by (simp add: fread_def Let_def min_def)

lemma length_wchars_of_bytes: "length (wchars_of_bytes bs) = length bs div 2"
  by (induction bs rule: wchars_of_bytes.induct) auto

lemma fread_last_header_short:
  "length (remaining a) < 28 \<Longrightarrow> fst (fread_last_header a) = 0"
  by (simp add: fread_last_header_def fread_eq remaining_def sizeof_EntryHeader_def)

lemma fread_last_header_full:
  "28 \<le> length (remaining a) \<Longrightarrow>
   fread_last_header a =
     (1, a\<lparr>archive_file := (archive_file a)\<lparr>offset := offset (archive_file a) + 28\<rparr>,
           last_header := EntryHeader_of_bytes (take 28 (remaining a))\<rparr>)"
  by (simp add: fread_last_header_def fread_eq remaining_def sizeof_EntryHeader_def min_def)

lemma ReadOrThrow_path_short:
  "length (remaining a) < 2 * n \<Longrightarrow> fst (ReadOrThrow_path n a) = Inl E_EREAD"
  unfolding ReadOrThrow_path_def fread_eq remaining_def
  by (simp add: min_def)

lemma ReadOrThrow_path_full:
  "2 * n \<le> length (remaining a) \<Longrightarrow>
   ReadOrThrow_path n a =
     (Inr True, a\<lparr>archive_file := (archive_file a)\<lparr>offset := offset (archive_file a) + 2 * n\<rparr>,
                  last_header_path := wchars_of_bytes (take (2 * n) (remaining a))\<rparr>)"
  unfolding ReadOrThrow_path_def fread_eq remaining_def
  by (simp add: min_def)

lemma ReadEntryHeader_short:
  "length (remaining a) < 28 \<Longrightarrow> fst (ReadEntryHeader a) = Inr False"
  using fread_last_header_short [of a]
  by (cases "fread_last_header a") (simp add: ReadEntryHeader_def)

lemma remaining_after_header: "remaining (after_header a) = drop 28 (remaining a)"
  by (simp add: after_header_def remaining_def add.commute)

lemma ReadEntryHeader_full:
  assumes "28 \<le> length (remaining a)"
  shows "ReadEntryHeader a =
     (if magic (EntryHeader_of_bytes (take 28 (remaining a))) \<noteq> kEntryMagic
        then (Inl E_BAD_ARCHIVE, after_header a)
      else if path_len (EntryHeader_of_bytes (take 28 (remaining a))) = 0
        then (Inl E_BAD_ARCHIVE, after_header a)
      else if 1023 < unat (path_len (EntryHeader_of_bytes (take 28 (remaining a))))
        then (Inl E_SMALL_BUF, after_header a)
      else ReadOrThrow_path (unat (path_len (EntryHeader_of_bytes (take 28 (remaining a)))))
             (after_header a))"
  unfolding ReadEntryHeader_def fread_last_header_full [OF assms] after_header_def [symmetric]
  by (simp add: after_header_def kMaxFileNameLen_def unat_eq_0)

text \<open>
  C5 (as amended). With fewer than the 28 bytes of a header in front of the stream
  (none at all included) the decoder reports the end of the archive and no error. With
  a whole header there: a wrong magic is BadArchive; a right magic with path length 0 is
  BadArchive; a right magic with a path length above 1023 is BufferTooSmall; and a
  header that is accepted comes with a path of exactly the declared number of code
  units, between 1 and 1023.
\<close>

theorem ReadEntryHeader_outcomes:
  "(length (remaining a) < 28 \<longrightarrow> fst (ReadEntryHeader a) = Inr False) \<and>
   (28 \<le> length (remaining a) \<and>
      magic (EntryHeader_of_bytes (take 28 (remaining a))) \<noteq> kEntryMagic \<longrightarrow>
      fst (ReadEntryHeader a) = Inl E_BAD_ARCHIVE) \<and>
   (28 \<le> length (remaining a) \<and>
      magic (EntryHeader_of_bytes (take 28 (remaining a))) = kEntryMagic \<and>
      path_len (EntryHeader_of_bytes (take 28 (remaining a))) = 0 \<longrightarrow>
      fst (ReadEntryHeader a) = Inl E_BAD_ARCHIVE) \<and>
   (28 \<le> length (remaining a) \<and>
      magic (EntryHeader_of_bytes (take 28 (remaining a))) = kEntryMagic \<and>
      1023 < unat (path_len (EntryHeader_of_bytes (take 28 (remaining a)))) \<longrightarrow>
      fst (ReadEntryHeader a) = Inl E_SMALL_BUF) \<and>
   (fst (ReadEntryHeader a) = Inr True \<longrightarrow>
      last_header (snd (ReadEntryHeader a)) = EntryHeader_of_bytes (take 28 (remaining a)) \<and>
      length (last_header_path (snd (ReadEntryHeader a))) =
        unat (path_len (last_header (snd (ReadEntryHeader a)))) \<and>
      0 < length (last_header_path (snd (ReadEntryHeader a))) \<and>
      length (last_header_path (snd (ReadEntryHeader a))) \<le> 1023)"
proof (cases "28 \<le> length (remaining a)")
  case False
  then show ?thesis
    using ReadEntryHeader_short [of a] by simp
next
  case True
  define h where "h = EntryHeader_of_bytes (take 28 (remaining a))"
  define n where "n = unat (path_len h)"
  note full = ReadEntryHeader_full [OF True, folded h_def, folded n_def]
  have c2: "magic h \<noteq> kEntryMagic \<Longrightarrow> fst (ReadEntryHeader a) = Inl E_BAD_ARCHIVE"
    by (simp add: full)
  have c3: "magic h = kEntryMagic \<Longrightarrow> path_len h = 0 \<Longrightarrow> fst (ReadEntryHeader a) = Inl E_BAD_ARCHIVE"
    by (simp add: full)
  have c4: "magic h = kEntryMagic \<Longrightarrow> 1023 < n \<Longrightarrow> fst (ReadEntryHeader a) = Inl E_SMALL_BUF"
    by (auto simp add: full n_def)
  have c5: "last_header (snd (ReadEntryHeader a)) = h \<and>
      length (last_header_path (snd (ReadEntryHeader a))) = n \<and> 0 < n \<and> n \<le> 1023"
    if ok: "fst (ReadEntryHeader a) = Inr True"
  proof -
    have g: "magic h = kEntryMagic" "path_len h \<noteq> 0" "\<not> 1023 < n"
      using ok by (auto simp add: full split: if_splits)
    then have r: "ReadEntryHeader a = ReadOrThrow_path n (after_header a)"
      by (simp add: full)
    have s: "2 * n \<le> length (remaining (after_header a))"
      using ok r ReadOrThrow_path_short [of "after_header a" n] by fastforce
    have "n \<noteq> 0"
      using g(2) by (simp add: n_def unat_eq_0)
    have lh: "last_header (after_header a) = h"
      by (simp add: after_header_def h_def)
    have "2 * n \<le> length (remaining (after_header a)) \<Longrightarrow>
          length (take (2 * n) (remaining (after_header a))) div 2 = n"
      by simp
    then show ?thesis
      using g s \<open>n \<noteq> 0\<close>
      by (simp add: r ReadOrThrow_path_full [OF s] length_wchars_of_bytes lh)
  qed
  show ?thesis
    using True c2 c3 c4 c5 by (simp add: h_def n_def)
qed

theorem ReadEntryHeader_outcomes_witness:
  "fst (ReadEntryHeader (stream_on [0, 0, 0, 0, 0])) = Inr False"
  using ReadEntryHeader_outcomes [of "stream_on [0, 0, 0, 0, 0]"]
  by (simp add: remaining_def stream_on_def new_ArchiveBase_def)

text \<open>C5 as stated fails: five bytes are there, the first four are not the magic, and
  the decoder reports the end of the archive, not BadArchive.\<close>

theorem ReadEntryHeader_partial_header_counterexample:
  "remaining (stream_on [0, 0, 0, 0, 0]) \<noteq> [] \<and>
   of_nat (le_nat (take 4 (remaining (stream_on [0, 0, 0, 0, 0])))) \<noteq> kEntryMagic \<and>
   fst (ReadEntryHeader (stream_on [0, 0, 0, 0, 0])) \<noteq> Inl E_BAD_ARCHIVE"
  by (simp add: remaining_def stream_on_def new_ArchiveBase_def ReadEntryHeader_def
      fread_last_header_def fread_def sizeof_EntryHeader_def kEntryMagic_def Let_def)

section \<open>Sorting and searching\<close>

lemma set_insert_by: "set (insert_by lt x xs) = insert x (set xs)"
  by (induction xs) auto

lemma set_std_sort: "set (std_sort lt xs) = set xs"
  by (induction xs) (auto simp: set_insert_by)

lemma mset_insert_by: "mset (insert_by lt x xs) = add_mset x (mset xs)"
  by (induction xs) auto

lemma mset_std_sort: "mset (std_sort lt xs) = mset xs"
  by (induction xs) (auto simp: mset_insert_by)

lemma length_std_sort: "length (std_sort lt xs) = length xs"
  by (metis mset_std_sort size_mset)

lemma std_sort_Nil_iff: "std_sort lt xs = [] \<longleftrightarrow> xs = []"
  by (metis length_std_sort length_0_conv)

lemma ordered_by_insert_by:
  assumes "strict_weak_order lt" "ordered_by lt xs"
  shows "ordered_by lt (insert_by lt x xs)"
  using assms(2)
proof (induction xs)
  case Nil
  then show ?case by (simp add: ordered_by_def)
next
  case (Cons y ys)
  have irr: "\<And>a. \<not> lt a a" and tr: "\<And>a b c. lt a b \<Longrightarrow> lt b c \<Longrightarrow> lt a c"
    and ntr: "\<And>a b c. \<not> lt a b \<Longrightarrow> \<not> lt b c \<Longrightarrow> \<not> lt a c"
    using assms(1) unfolding strict_weak_order_def by blast+
  show ?case
  proof (cases "lt y x")
    case True
    have "\<not> lt x y" using True irr tr by blast
    with Cons True show ?thesis
      by (auto simp: ordered_by_def set_insert_by)
  next
    case False
    have "\<forall>z\<in>set ys. \<not> lt z x"
      using Cons.prems False ntr by (auto simp: ordered_by_def)
    with Cons.prems False show ?thesis
      by (auto simp: ordered_by_def)
  qed
qed

lemma ordered_by_std_sort: "strict_weak_order lt \<Longrightarrow> ordered_by lt (std_sort lt xs)"
proof (induction xs)
  case Nil
  then show ?case by (simp add: ordered_by_def)
next
  case (Cons x xs)
  then show ?case by (simp add: ordered_by_insert_by)
qed

lemma lower_bound_step:
  "xs \<noteq> [] \<Longrightarrow>
   lower_bound cmp xs v =
     (if cmp (xs ! (length xs div 2)) v
      then length xs div 2 + 1 + lower_bound cmp (drop (length xs div 2 + 1) xs) v
      else lower_bound cmp (take (length xs div 2) xs) v)"
  by (subst lower_bound.simps) (simp add: Let_def)

lemma lower_bound_partitioned:
  "\<forall>a\<in>set as. cmp a v \<Longrightarrow> \<forall>b\<in>set bs. \<not> cmp b v \<Longrightarrow>
   lower_bound cmp (as @ bs) v = length as"
proof (induction "length (as @ bs)" arbitrary: as bs rule: less_induct)
  case less
  show ?case
  proof (cases "as @ bs = []")
    case True
    then show ?thesis by (simp add: lower_bound.simps)
  next
    case False
    define m where "m = length (as @ bs) div 2"
    have mlt: "m < length (as @ bs)"
      using False by (simp add: m_def)
    have step: "lower_bound cmp (as @ bs) v =
        (if cmp ((as @ bs) ! m) v
         then m + 1 + lower_bound cmp (drop (m + 1) (as @ bs)) v
         else lower_bound cmp (take m (as @ bs)) v)"
      unfolding m_def by (rule lower_bound_step [OF False])
    show ?thesis
    proof (cases "m < length as")
      case True
      then have c: "cmp ((as @ bs) ! m) v"
        using less.prems(1) by (simp add: nth_append)
      have d: "drop (m + 1) (as @ bs) = drop (m + 1) as @ bs"
        using True by simp
      have "length (drop (m + 1) as @ bs) < length (as @ bs)"
        using True by simp
      moreover have "\<forall>a\<in>set (drop (m + 1) as). cmp a v"
        using less.prems(1) by (meson in_set_dropD)
      ultimately have "lower_bound cmp (drop (m + 1) as @ bs) v = length (drop (m + 1) as)"
        using less.hyps [of "drop (m + 1) as" bs] less.prems(2) by blast
      then have "lower_bound cmp (as @ bs) v = m + 1 + (length as - (m + 1))"
        unfolding step d using c by simp
      then show ?thesis
        using True by simp
    next
      case F: False
      then have c: "\<not> cmp ((as @ bs) ! m) v"
        using less.prems(2) mlt by (simp add: nth_append)
      have d: "take m (as @ bs) = as @ take (m - length as) bs"
        using F by simp
      have "length (as @ take (m - length as) bs) < length (as @ bs)"
        using mlt F by simp
      moreover have "\<forall>b\<in>set (take (m - length as) bs). \<not> cmp b v"
        using less.prems(2) by (meson in_set_takeD)
      ultimately have "lower_bound cmp (as @ take (m - length as) bs) v = length as"
        using less.hyps [of as "take (m - length as) bs"] less.prems(1) by blast
      then show ?thesis
        unfolding step d using c by simp
    qed
  qed
qed

lemma ordered_by_partition:
  assumes "strict_weak_order lt" "ordered_by lt xs"
  shows "\<exists>as bs. xs = as @ bs \<and> (\<forall>a\<in>set as. lt a v) \<and> (\<forall>b\<in>set bs. \<not> lt b v)"
  using assms(2)
proof (induction xs)
  case Nil
  then show ?case by simp
next
  case (Cons x xs)
  have ntr: "\<And>a b c. \<not> lt a b \<Longrightarrow> \<not> lt b c \<Longrightarrow> \<not> lt a c"
    using assms(1) unfolding strict_weak_order_def by blast
  show ?case
  proof (cases "lt x v")
    case True
    obtain as bs where "xs = as @ bs" "\<forall>a\<in>set as. lt a v" "\<forall>b\<in>set bs. \<not> lt b v"
      using Cons by (auto simp: ordered_by_def)
    then have "x # xs = (x # as) @ bs \<and> (\<forall>a\<in>set (x # as). lt a v) \<and> (\<forall>b\<in>set bs. \<not> lt b v)"
      using True by simp
    then show ?thesis by blast
  next
    case False
    have "\<forall>b\<in>set (x # xs). \<not> lt b v"
      using Cons.prems False ntr by (auto simp: ordered_by_def)
    then have "x # xs = [] @ (x # xs) \<and> (\<forall>a\<in>set []. lt a v) \<and> (\<forall>b\<in>set (x # xs). \<not> lt b v)"
      by simp
    then show ?thesis by blast
  qed
qed

text \<open>On an ordered range the search finds an element equivalent to the value whenever
  there is one.\<close>

lemma lower_bound_finds:
  assumes swo: "strict_weak_order lt" and ord: "ordered_by lt xs"
    and x: "x \<in> set xs" "\<not> lt x v" "\<not> lt v x"
  shows "lower_bound lt xs v < length xs \<and>
         \<not> lt (xs ! lower_bound lt xs v) v \<and> \<not> lt v (xs ! lower_bound lt xs v)"
proof -
  obtain as bs where p: "xs = as @ bs" "\<forall>a\<in>set as. lt a v" "\<forall>b\<in>set bs. \<not> lt b v"
    using ordered_by_partition [OF swo ord] by blast
  have lb: "lower_bound lt (as @ bs) v = length as"
    using lower_bound_partitioned [where cmp = lt and v = v and as = as and bs = bs] p(2) p(3) by blast
  have "x \<in> set as \<or> x \<in> set bs"
    using x(1) unfolding p(1) by simp
  then have xb: "x \<in> set bs"
    using x(2) p(2) by blast
  then obtain b bs' where bs: "bs = b # bs'"
    by (cases bs) auto
  have nb: "\<not> lt b v"
    using p(3) unfolding bs by simp
  have irr: "\<And>a. \<not> lt a a" and ntr: "\<And>a b c. \<not> lt a b \<Longrightarrow> \<not> lt b c \<Longrightarrow> \<not> lt a c"
    using swo unfolding strict_weak_order_def by blast+
  have "sorted_wrt (\<lambda>a b. \<not> lt b a) (as @ b # bs')"
    using ord unfolding p(1) bs ordered_by_def .
  then have "sorted_wrt (\<lambda>a b. \<not> lt b a) (b # bs')"
    unfolding sorted_wrt_append by blast
  then have "\<forall>y\<in>set bs'. \<not> lt y b"
    by simp
  moreover have "x = b \<or> x \<in> set bs'"
    using xb unfolding bs by simp
  ultimately have "\<not> lt x b"
    using irr by blast
  then have "\<not> lt v b"
    using x(3) ntr by blast
  moreover have "(as @ b # bs') ! length as = b"
    by simp
  moreover have "length as < length (as @ b # bs')"
    by simp
  ultimately show ?thesis
    unfolding p(1) lb unfolding bs using nb by presburger
qed

lemma lower_bound_le: "lower_bound cmp xs v \<le> length xs"
proof (induction "length xs" arbitrary: xs rule: less_induct)
  case less
  show ?case
  proof (cases "xs = []")
    case True
    then show ?thesis by (simp add: lower_bound.simps)
  next
    case False
    define m where "m = length xs div 2"
    have m: "m < length xs" using False by (simp add: m_def)
    have step: "lower_bound cmp xs v =
        (if cmp (xs ! m) v
         then m + 1 + lower_bound cmp (drop (m + 1) xs) v
         else lower_bound cmp (take m xs) v)"
      unfolding m_def by (rule lower_bound_step [OF False])
    have "lower_bound cmp (drop (m + 1) xs) v \<le> length (drop (m + 1) xs)"
      using less [of "drop (m + 1) xs"] m by simp
    then have a: "m + 1 + lower_bound cmp (drop (m + 1) xs) v \<le> length xs"
      using m by simp
    have "lower_bound cmp (take m xs) v \<le> length (take m xs)"
      using less [of "take m xs"] m by simp
    then have b: "lower_bound cmp (take m xs) v \<le> length xs"
      by simp
    show ?thesis
      unfolding step using a b by presburger
  qed
qed

lemma wstring_less_lexord: "wstring_less a b \<longleftrightarrow> (a, b) \<in> lexord {(x, y). x < y}"
  by (induction a b rule: wstring_less.induct) auto

lemma wstring_less_irrefl: "\<not> wstring_less a a"
  by (simp add: wstring_less_lexord lexord_irreflexive)

lemma wstring_less_trans: "wstring_less a b \<Longrightarrow> wstring_less b c \<Longrightarrow> wstring_less a c"
  unfolding wstring_less_lexord
  by (rule lexord_trans) (auto simp: trans_def)

lemma wstring_less_linear: "wstring_less a b \<or> a = b \<or> wstring_less b a"
  unfolding wstring_less_lexord
  by (rule lexord_linear) auto

lemma strict_weak_order_wstring_less: "strict_weak_order wstring_less"
  unfolding strict_weak_order_def
  by (metis wstring_less_irrefl wstring_less_trans wstring_less_linear)

text \<open>In a range sorted by \<^verbatim>\<open>operator<\<close> the search decides membership.\<close>

lemma lower_bound_member:
  assumes "ordered_by wstring_less ds"
  shows "(lower_bound wstring_less ds p \<noteq> length ds \<and> ds ! lower_bound wstring_less ds p = p)
         \<longleftrightarrow> p \<in> set ds"
proof
  assume l: "lower_bound wstring_less ds p \<noteq> length ds \<and> ds ! lower_bound wstring_less ds p = p"
  then have "lower_bound wstring_less ds p < length ds"
    using lower_bound_le [of wstring_less ds p] by simp
  then show "p \<in> set ds"
    using l nth_mem by metis
next
  assume "p \<in> set ds"
  then have "lower_bound wstring_less ds p < length ds \<and>
         \<not> wstring_less (ds ! lower_bound wstring_less ds p) p \<and>
         \<not> wstring_less p (ds ! lower_bound wstring_less ds p)"
    using lower_bound_finds [OF strict_weak_order_wstring_less assms, of p p]
    by (simp add: wstring_less_irrefl)
  then show "lower_bound wstring_less ds p \<noteq> length ds \<and> ds ! lower_bound wstring_less ds p = p"
    using wstring_less_linear [of "ds ! lower_bound wstring_less ds p" p] by auto
qed

lemma ShouldDelete_from_step:
  "ShouldDelete_from p ds =
     (p \<noteq> [] \<and>
      ((lower_bound wstring_less ds p \<noteq> length ds \<and> ds ! lower_bound wstring_less ds p = p) \<or>
       ShouldDelete_from (UpDir p) ds))"
  by (subst ShouldDelete_from.simps) (simp add: Let_def)

lemma UpDir_Nil: "UpDir [] = []"
  by (simp add: UpDir_def)

lemma funpow_UpDir_Nil: "(UpDir ^^ k) [] = []"
  by (induction k) (simp_all add: UpDir_Nil)

lemma ShouldDelete_from_iff:
  assumes "ordered_by wstring_less ds"
  shows "ShouldDelete_from p ds \<longleftrightarrow> (\<exists>k. (UpDir ^^ k) p \<noteq> [] \<and> (UpDir ^^ k) p \<in> set ds)"
  using assms
proof (induction p ds rule: ShouldDelete_from.induct)
  case (1 p ds)
  note ord = \<open>ordered_by wstring_less ds\<close>
  show ?case
  proof (cases "p = []")
    case True
    have "\<not> ShouldDelete_from [] ds"
      by (subst ShouldDelete_from_step) simp
    then show ?thesis
      using True by (simp add: funpow_UpDir_Nil)
  next
    case False
    note ne = this
    show ?thesis
    proof (cases "p \<in> set ds")
      case True
      have "(UpDir ^^ 0) p \<noteq> [] \<and> (UpDir ^^ 0) p \<in> set ds"
        using True ne by simp
      then have "\<exists>k. (UpDir ^^ k) p \<noteq> [] \<and> (UpDir ^^ k) p \<in> set ds"
        by blast
      moreover have "lower_bound wstring_less ds p \<noteq> length ds \<and>
          ds ! lower_bound wstring_less ds p = p"
        using True lower_bound_member [OF ord, of p] by blast
      then have "ShouldDelete_from p ds"
        using ne by (subst ShouldDelete_from_step) blast
      ultimately show ?thesis by blast
    next
      case False
      have m: "\<not> (lower_bound wstring_less ds p \<noteq> length ds \<and> ds ! lower_bound wstring_less ds p = p)"
        using False lower_bound_member [OF ord, of p] by blast
      have ih: "ShouldDelete_from (UpDir p) ds \<longleftrightarrow>
          (\<exists>k. (UpDir ^^ k) (UpDir p) \<noteq> [] \<and> (UpDir ^^ k) (UpDir p) \<in> set ds)"
        using "1.IH" [OF ne refl _ ord] m by blast
      have s: "ShouldDelete_from p ds = ShouldDelete_from (UpDir p) ds"
        using ne m by (subst ShouldDelete_from_step) blast
      have "(\<exists>k. (UpDir ^^ k) p \<noteq> [] \<and> (UpDir ^^ k) p \<in> set ds) \<longleftrightarrow>
            (\<exists>k. (UpDir ^^ k) (UpDir p) \<noteq> [] \<and> (UpDir ^^ k) (UpDir p) \<in> set ds)"
      proof
        assume "\<exists>k. (UpDir ^^ k) p \<noteq> [] \<and> (UpDir ^^ k) p \<in> set ds"
        then obtain k where k: "(UpDir ^^ k) p \<noteq> []" "(UpDir ^^ k) p \<in> set ds"
          by blast
        have "k \<noteq> 0" using k(2) False by (cases k) auto
        then obtain k' where "k = Suc k'" by (cases k) auto
        then show "\<exists>k. (UpDir ^^ k) (UpDir p) \<noteq> [] \<and> (UpDir ^^ k) (UpDir p) \<in> set ds"
          using k by (auto simp: funpow_swap1)
      next
        assume "\<exists>k. (UpDir ^^ k) (UpDir p) \<noteq> [] \<and> (UpDir ^^ k) (UpDir p) \<in> set ds"
        then obtain k where "(UpDir ^^ k) (UpDir p) \<noteq> []" "(UpDir ^^ k) (UpDir p) \<in> set ds"
          by blast
        then have "(UpDir ^^ Suc k) p \<noteq> [] \<and> (UpDir ^^ Suc k) p \<in> set ds"
          by (simp add: funpow_swap1)
        then show "\<exists>k. (UpDir ^^ k) p \<noteq> [] \<and> (UpDir ^^ k) p \<in> set ds"
          by blast
      qed
      then show ?thesis
        using s ih by blast
    qed
  qed
qed

lemma find_last_of_slash_append:
  "find_last_of_slash (xs @ ys) =
     (case find_last_of_slash ys of
        Some i \<Rightarrow> Some (length xs + i)
      | None \<Rightarrow> find_last_of_slash xs)"
  by (induction xs) (auto split: option.splits)

lemma find_last_of_slash_bound: "find_last_of_slash p = Some i \<Longrightarrow> i < length p"
  by (induction p arbitrary: i) (auto split: option.splits if_splits)

lemma UpDir_below:
  assumes "is_slash c"
  shows "UpDir (q @ c # rest) =
     (case find_last_of_slash rest of Some j \<Rightarrow> q @ c # take j rest | None \<Rightarrow> q)"
  using assms
  by (simp add: UpDir_def find_last_of_slash_append split: option.splits)

lemma climbs_to_directory:
  assumes "is_slash c"
  shows "\<exists>k. (UpDir ^^ k) (q @ c # rest) = q"
proof (induction "length rest" arbitrary: rest rule: less_induct)
  case less
  show ?case
  proof (cases "find_last_of_slash rest")
    case None
    then have "(UpDir ^^ 1) (q @ c # rest) = q"
      using UpDir_below [OF assms, of q rest] by simp
    then show ?thesis by blast
  next
    case (Some j)
    then have "length (take j rest) < length rest"
      using find_last_of_slash_bound [of rest j] by simp
    then obtain k where "(UpDir ^^ k) (q @ c # take j rest) = q"
      using less by blast
    moreover have "UpDir (q @ c # rest) = q @ c # take j rest"
      using UpDir_below [OF assms, of q rest] Some by simp
    ultimately have "(UpDir ^^ Suc k) (q @ c # rest) = q"
      by (simp add: funpow_swap1)
    then show ?thesis by blast
  qed
qed

lemma towupper_slash: "is_slash c \<Longrightarrow> towupper c = c"
  by (auto simp: is_slash_def towupper_def)

lemma ordered_paths_to_delete_of: "ordered_by wstring_less (paths_to_delete_of deleteList)"
  unfolding paths_to_delete_of_def
  by (rule ordered_by_std_sort [OF strict_weak_order_wstring_less])

lemma set_paths_to_delete_of:
  "set (paths_to_delete_of deleteList) = delete_list_path ` set (string_list deleteList)"
  by (simp add: paths_to_delete_of_def set_std_sort)

lemma ShouldDelete_by_ancestors:
  "(ShouldDelete curr_path (paths_to_delete_of deleteList) \<longleftrightarrow>
      (\<exists>k. (UpDir ^^ k) (UpperCase curr_path) \<noteq> [] \<and>
           (UpDir ^^ k) (UpperCase curr_path) \<in> delete_list_path ` set (string_list deleteList))) \<and>
   (\<forall>d\<in>set (string_list deleteList). \<forall>dir c rest.
      delete_list_path d \<noteq> [] \<and> UpperCase dir = delete_list_path d \<and> is_slash c \<longrightarrow>
      ShouldDelete (dir @ c # rest) (paths_to_delete_of deleteList))"
proof -
  have A: "ShouldDelete p (paths_to_delete_of deleteList) \<longleftrightarrow>
      (\<exists>k. (UpDir ^^ k) (UpperCase p) \<noteq> [] \<and>
           (UpDir ^^ k) (UpperCase p) \<in> delete_list_path ` set (string_list deleteList))" for p
    unfolding ShouldDelete_def
    using ShouldDelete_from_iff [OF ordered_paths_to_delete_of, of "UpperCase p" deleteList]
    by (simp add: set_paths_to_delete_of)
  have B: "ShouldDelete (dir @ c # rest) (paths_to_delete_of deleteList)"
    if d: "d \<in> set (string_list deleteList)" and ne: "delete_list_path d \<noteq> []"
      and u: "UpperCase dir = delete_list_path d" and c: "is_slash c"
    for d dir c rest
  proof -
    have "UpperCase (dir @ c # rest) = delete_list_path d @ c # UpperCase rest"
      using u towupper_slash [OF c] by (simp add: UpperCase_def)
    moreover obtain k where "(UpDir ^^ k) (delete_list_path d @ c # UpperCase rest) = delete_list_path d"
      using climbs_to_directory [OF c] by blast
    ultimately have "(UpDir ^^ k) (UpperCase (dir @ c # rest)) \<noteq> [] \<and>
        (UpDir ^^ k) (UpperCase (dir @ c # rest)) \<in> delete_list_path ` set (string_list deleteList)"
      using ne d by simp
    then show ?thesis
      unfolding A by blast
  qed
  show ?thesis
    using A B by blast
qed

lemma ShouldDelete_by_ancestors_example:
  "ShouldDelete (wpath [''Dir'', ''A.txt'']) (paths_to_delete_of [wpath [''Dir'', ''*.*'']]) \<and>
   ShouldDelete (wpath [''Dir'', ''Sub'', ''B.txt'']) (paths_to_delete_of [wpath [''Dir'', ''*.*'']])"
proof -
  have l: "string_list [wpath [''Dir'', ''*.*'']] = [wpath [''Dir'', ''*.*'']]"
    by (simp add: string_list_def c_str_def W_def backslash_def)
  have d: "delete_list_path (wpath [''Dir'', ''*.*'']) = W ''DIR''"
    by (simp add: delete_list_path_def ends_with_def StripTrailingSlash_def UpperCase_def
        towupper_def is_slash_def W_def backslash_def)
  have u: "UpperCase (W ''Dir'') = W ''DIR''"
    by (simp add: UpperCase_def towupper_def W_def)
  have s: "is_slash backslash"
    by (simp add: is_slash_def backslash_def)
  have m: "wpath [''Dir'', ''*.*''] \<in> set (string_list [wpath [''Dir'', ''*.*'']])"
    unfolding l by simp
  have n: "delete_list_path (wpath [''Dir'', ''*.*'']) \<noteq> []"
    unfolding d by (simp add: W_def)
  have "ShouldDelete (W ''Dir'' @ backslash # rest) (paths_to_delete_of [wpath [''Dir'', ''*.*'']])"
    for rest
    using ShouldDelete_by_ancestors [of "[]" "[wpath [''Dir'', ''*.*'']]", THEN conjunct2,
        THEN bspec, OF m, THEN spec, THEN spec, THEN spec, THEN mp,
        of "W ''Dir''" backslash rest]
      n s u d by simp
  from this [of "W ''A.txt''"] this [of "wpath [''Sub'', ''B.txt'']"]
  show ?thesis by simp
qed

lemma paths_to_delete_of_Nil_iff:
  "paths_to_delete_of deleteList = [] \<longleftrightarrow> string_list deleteList = []"
  by (simp add: paths_to_delete_of_def std_sort_Nil_iff)

text \<open>
  C10 (as amended). An erase whose list holds no path returns 0, unless the host
  answers the first progress report with a cancel, and then it fails with Aborted. In
  both cases the archive is neither opened nor changed: the result is the same whatever
  is on disk under the name, nothing or bytes that are no archive included.
\<close>

theorem DeleteFilesW_empty_list:
  "string_list deleteList = [] \<Longrightarrow>
   DeleteFilesW turns cancels packedFile deleteList =
     (if fst (progress_cancelled cancels) then Some (Inl E_EABORTED) else Some (Inr 0),
      packedFile)"
  by (simp add: DeleteFilesW_def paths_to_delete_of_Nil_iff split: prod.splits)

theorem DeleteFilesW_empty_list_witness:
  "DeleteFilesW 0 [] None [] = (Some (Inr 0), None) \<and>
   DeleteFilesW 0 [False] (Some [1, 2, 3]) [[]] = (Some (Inr 0), Some [1, 2, 3])"
  using DeleteFilesW_empty_list [of "[]" 0 "[]" None]
    DeleteFilesW_empty_list [of "[[]]" 0 "[False]" "Some [1, 2, 3]"]
  by (simp add: string_list_def c_str_def progress_cancelled_def)

text \<open>C10 as stated fails: with an empty list and a host that cancels at the first
  report the erase does not return 0.\<close>

theorem DeleteFilesW_empty_list_cancel_counterexample:
  "string_list [] = [] \<and> fst (DeleteFilesW 0 [True] None []) = Some (Inl E_EABORTED)"
  by (simp add: string_list_def DeleteFilesW_def progress_cancelled_def)

lemma wcsicmp_antisym: "wcsicmp b a = - wcsicmp a b"
  by (induction a b rule: wcsicmp.induct) auto

lemma towlower_eq_0: "towlower c = 0 \<longleftrightarrow> c = 0"
proof (cases "0x41 \<le> c \<and> c \<le> 0x5A")
  case True
  then have u: "65 \<le> unat c" "unat c \<le> 90"
    by (simp_all add: word_le_nat_alt)
  then have "unat c + unat (0x20 :: wchar) < 2 ^ LENGTH(16)"
    by simp
  then have "unat (c + 0x20) = unat c + unat (0x20 :: wchar)"
    by (simp only: unat_add_lem)
  then have "unat (c + 0x20) \<noteq> 0"
    using u by simp
  then have "c + 0x20 \<noteq> 0"
    by (metis unat_0)
  moreover have "c \<noteq> 0"
    using u by auto
  ultimately show ?thesis
    using True by (simp add: towlower_def)
next
  case False
  then show ?thesis
    by (auto simp add: towlower_def)
qed

lemma int_unat_diff_0: "int (unat (x :: wchar)) - int (unat y) = 0 \<longleftrightarrow> x = y"
  by (simp add: word_uint_eq_iff)

lemma wcsicmp_eq_0:
  "0 \<notin> set a \<Longrightarrow> 0 \<notin> set b \<Longrightarrow> wcsicmp a b = 0 \<longleftrightarrow> map towlower a = map towlower b"
proof (induction a b rule: wcsicmp.induct)
  case 1
  then show ?case by simp
next
  case (2 y ys)
  then have "y \<noteq> 0" by auto
  then have "towlower y \<noteq> 0"
    by (simp add: towlower_eq_0)
  then show ?case by (simp add: uint_0_iff)
next
  case (3 x xs)
  then have "x \<noteq> 0" by auto
  then have "towlower x \<noteq> 0"
    by (simp add: towlower_eq_0)
  then show ?case by (simp add: uint_0_iff)
next
  case (4 x xs y ys)
  show ?case
  proof (cases "towlower x = towlower y")
    case True
    then show ?thesis
      using 4 by simp
  next
    case False
    then show ?thesis
      by (simp add: word_uint_eq_iff)
  qed
qed

lemma c_str_no_NUL: "0 \<notin> set (c_str s)"
  by (auto simp: c_str_def dest: set_takeWhileD)

lemma same_key_iff: "same_key a b \<longleftrightarrow> fold_key a = fold_key b"
proof -
  have "same_key a b \<longleftrightarrow> wcsicmp (c_str a) (c_str b) = 0"
    using wcsicmp_antisym [of "c_str b" "c_str a"]
    by (auto simp: same_key_def StricmpPred_def)
  then show ?thesis
    by (simp add: wcsicmp_eq_0 c_str_no_NUL fold_key_def)
qed

section \<open>Removing the duplicates of a file name\<close>





lemma name_map_find_Cons:
  "name_map_find ((k, i) # m) name =
     (if fold_key k = fold_key name then Some i else name_map_find m name)"
  by (simp add: same_key_iff)
















section \<open>Erasing changes flag bytes only\<close>

lemma offset_fwrite: "offset (fwrite bs f) = offset f + length bs"
  by (simp add: fwrite_def Let_def)


lemma contents_fread_last_header:
  "contents (archive_file (snd (fread_last_header a))) = contents (archive_file a)"
  by (simp add: fread_last_header_def fread_eq)

lemma contents_ReadOrThrow_path:
  "contents (archive_file (snd (ReadOrThrow_path n a))) = contents (archive_file a)"
  by (simp add: ReadOrThrow_path_def fread_eq)

lemma contents_ReadEntryHeader:
  "contents (archive_file (snd (ReadEntryHeader a))) = contents (archive_file a)"
proof (cases "fread_last_header a")
  case (Pair k a1)
  have "contents (archive_file a1) = contents (archive_file a)"
    using contents_fread_last_header [of a] Pair by simp
  then show ?thesis
    using contents_ReadOrThrow_path [of "unat (path_len (last_header a1))" a1]
    by (simp add: ReadEntryHeader_def Pair)
qed














section \<open>Records as they stand in the file\<close>

lemma length_le_bytes: "length (le_bytes n v) = n"
  by (induction n arbitrary: v) auto

lemma le_nat_le_bytes: "le_nat (le_bytes n v) = v mod 256 ^ n"
proof (induction n arbitrary: v)
  case 0
  then show ?case by simp
next
  case (Suc n)
  have "unat (of_nat (v mod 256) :: byte) = v mod 256"
    by (simp add: unat_of_nat)
  then have "le_nat (le_bytes (Suc n) v) = v mod 256 + 256 * ((v div 256) mod 256 ^ n)"
    using Suc by simp
  also have "\<dots> = v mod 256 ^ Suc n"
    by (simp add: mod_mult2_eq)
  finally show ?case .
qed

lemma of_nat_le_nat_le_bytes_32: "of_nat (le_nat (le_bytes 4 (unat (w :: 32 word)))) = w"
proof -
  have "unat w < 256 ^ 4"
    using unsigned_less [of w, where 'a = nat] by simp
  then show ?thesis
    by (simp add: le_nat_le_bytes)
qed

lemma of_nat_le_nat_le_bytes_64: "of_nat (le_nat (le_bytes 8 (unat (w :: 64 word)))) = w"
proof -
  have "unat w < 256 ^ 8"
    using unsigned_less [of w, where 'a = nat] by simp
  then show ?thesis
    by (simp add: le_nat_le_bytes)
qed

lemma of_nat_le_nat_le_bytes_16: "of_nat (le_nat (le_bytes 2 (unat (w :: 16 word)))) = w"
proof -
  have "unat w < 256 ^ 2"
    using unsigned_less [of w, where 'a = nat] by simp
  then show ?thesis
    by (simp add: le_nat_le_bytes)
qed

lemma length_bytes_of_EntryHeader: "length (bytes_of_EntryHeader h) = 28"
  by (simp add: bytes_of_EntryHeader_def length_le_bytes)

lemma length_bytes_of_wchars: "length (bytes_of_wchars p) = 2 * length p"
  by (induction p) (simp_all add: bytes_of_wchars_def length_le_bytes)

lemma wchars_of_bytes_of_wchars: "wchars_of_bytes (bytes_of_wchars p) = p"
proof (induction p)
  case Nil
  then show ?case by (simp add: bytes_of_wchars_def)
next
  case (Cons c p)
  obtain lo hi where lh: "le_bytes 2 (unat c) = [lo, hi]"
    by (simp add: numeral_2_eq_2)
  have "of_nat (le_nat [lo, hi]) = c"
    using of_nat_le_nat_le_bytes_16 [of c] unfolding lh .
  then show ?case
    using Cons by (simp add: bytes_of_wchars_def lh)
qed

lemma EntryHeader_of_bytes_of_EntryHeader:
  "EntryHeader_of_bytes (bytes_of_EntryHeader h) = h"
proof -
  define m where "m = le_bytes 4 (unat (magic h))"
  define t where "t = le_bytes 4 (unat (time h))"
  define p where "p = le_bytes 8 (unat (pack_size h))"
  define u where "u = le_bytes 8 (unat (unp_size h))"
  define l where "l = le_bytes 2 (unat (path_len h))"
  have len: "length m = 4" "length t = 4" "length p = 8" "length u = 8" "length l = 2"
    by (simp_all add: m_def t_def p_def u_def l_def length_le_bytes)
  have b: "bytes_of_EntryHeader h = m @ [flags h, attributes h] @ t @ p @ u @ l"
    by (simp add: bytes_of_EntryHeader_def m_def t_def p_def u_def l_def)
  have "EntryHeader_of_bytes (m @ [flags h, attributes h] @ t @ p @ u @ l) =
      \<lparr>magic = of_nat (le_nat m), flags = flags h, attributes = attributes h,
       time = of_nat (le_nat t), pack_size = of_nat (le_nat p), unp_size = of_nat (le_nat u),
       path_len = of_nat (le_nat l)\<rparr>"
    using len by (simp add: EntryHeader_of_bytes_def nth_append)
  also have "\<dots> = h"
    unfolding m_def t_def p_def u_def l_def
    by (simp add: of_nat_le_nat_le_bytes_32 of_nat_le_nat_le_bytes_64 of_nat_le_nat_le_bytes_16)
  finally show ?thesis
    unfolding b .
qed

lemma length_entry_bytes:
  "length (entry_bytes e) = 28 + 2 * length (e_path e) + length (e_payload e)"
  by (simp add: entry_bytes_def length_bytes_of_EntryHeader length_bytes_of_wchars)

lemma sint_small: "unat (w :: 64 word) < 2 ^ 63 \<Longrightarrow> sint w = int (unat w)"
proof -
  assume "unat w < 2 ^ 63"
  then have "int (unat w) < int (2 ^ 63)"
    by (simp only: of_nat_less_iff)
  then have "uint w < 2 ^ 63"
    by simp
  moreover have "- (2 ^ 63) \<le> uint w"
    by (rule order_trans [of _ 0]) simp_all
  ultimately have "signed_take_bit 63 (uint w) = uint w"
    by (rule signed_take_bit_int_eq_self [rotated])
  then show ?thesis
    by (simp add: sint_uint)
qed

lemma UpdateProgress_no_cancel:
  "no_cancel a \<Longrightarrow>
   \<exists>cs. UpdateProgress a = (False, a\<lparr>cancel_requests := cs\<rparr>) \<and> True \<notin> set cs"
  by (cases "cancel_requests a")
    (auto simp: UpdateProgress_def progress_cancelled_def no_cancel_def)

lemma ReadEntryHeader_entry:
  assumes "at_entry a pre e post" "entry_ok e"
  shows "ReadEntryHeader a =
     (Inr True,
      a\<lparr>archive_file := (archive_file a)\<lparr>offset := length pre + 28 + 2 * length (e_path e)\<rparr>,
        last_header := e_header e,
        last_header_path := e_path e\<rparr>)"
proof -
  define hb where "hb = bytes_of_EntryHeader (e_header e)"
  define pb where "pb = bytes_of_wchars (e_path e)"
  have lh: "length hb = 28" and lp: "length pb = 2 * length (e_path e)"
    by (simp_all add: hb_def pb_def length_bytes_of_EntryHeader length_bytes_of_wchars)
  have r: "remaining a = hb @ pb @ e_payload e @ post"
    using assms(1) by (simp add: at_entry_def remaining_def entry_bytes_def hb_def pb_def)
  have len: "28 \<le> length (remaining a)"
    by (simp add: r lh)
  have t: "take 28 (remaining a) = hb"
    by (simp add: r lh)
  have h: "EntryHeader_of_bytes (take 28 (remaining a)) = e_header e"
    unfolding t hb_def by (rule EntryHeader_of_bytes_of_EntryHeader)
  have ok: "magic (e_header e) = kEntryMagic" "unat (path_len (e_header e)) = length (e_path e)"
    "0 < length (e_path e)" "length (e_path e) \<le> 1023"
    using assms(2) by (simp_all add: entry_ok_def)
  have ne: "path_len (e_header e) \<noteq> 0"
    using ok(2,3) by auto
  have 1: "ReadEntryHeader a =
      ReadOrThrow_path (length (e_path e)) (after_header a)"
    unfolding ReadEntryHeader_full [OF len] h using ok ne by simp
  have ra: "remaining (after_header a) = pb @ e_payload e @ post"
    by (simp add: remaining_after_header r lh)
  have 2: "2 * length (e_path e) \<le> length (remaining (after_header a))"
    by (simp add: ra lp)
  have tk: "take (2 * length (e_path e)) (remaining (after_header a)) = pb"
    by (simp add: ra lp)
  show ?thesis
    unfolding 1 ReadOrThrow_path_full [OF 2] tk
    using assms(1)
    by (simp add: after_header_def h pb_def wchars_of_bytes_of_wchars at_entry_def)
qed

lemma int_bound: "(n :: nat) < 2 ^ 63 \<Longrightarrow> int n < 2 ^ 63"
proof -
  assume "n < 2 ^ 63"
  then have "int n < int (2 ^ 63)"
    by (simp only: of_nat_less_iff)
  then show ?thesis by simp
qed

lemma skip_content_entry:
  assumes h: "last_header a = e_header e" and ok: "entry_ok e"
    and small: "offset (archive_file a) + length (e_payload e) < 2 ^ 63"
  shows "skip_content a =
     (Inr (), a\<lparr>archive_file :=
                   (archive_file a)\<lparr>offset := offset (archive_file a) + length (e_payload e)\<rparr>\<rparr>)"
proof (cases "pack_size (e_header e) = 0")
  case True
  then have "length (e_payload e) = 0"
    using ok by (simp add: entry_ok_def)
  then show ?thesis
    using True h by (simp add: skip_content_def)
next
  case False
  have u: "unat (pack_size (e_header e)) = length (e_payload e)"
    using ok by (simp add: entry_ok_def)
  have "length (e_payload e) < 2 ^ 63"
    using small by simp
  then have s: "sint (pack_size (e_header e)) = int (length (e_payload e))"
    using sint_small [of "pack_size (e_header e)"] u by simp
  have t: "int (offset (archive_file a)) + int (length (e_payload e)) < 2 ^ 63"
    using int_bound [OF small] by simp
  have "fseek_cur (int (length (e_payload e))) (archive_file a) =
      Some ((archive_file a)\<lparr>offset := offset (archive_file a) + length (e_payload e)\<rparr>)"
    using t by (simp add: fseek_cur_def fseek_set_def nat_add_distrib)
  then show ?thesis
    using False h by (simp add: skip_content_def SeekOrThrow_cur_def s)
qed

lemma bytes_of_EntryHeader_flags:
  "(bytes_of_EntryHeader h)[4 := x] = bytes_of_EntryHeader (h\<lparr>flags := x\<rparr>)"
proof -
  define m where "m = le_bytes 4 (unat (magic h))"
  have "length m = 4"
    by (simp add: m_def length_le_bytes)
  then show ?thesis
    by (simp add: bytes_of_EntryHeader_def m_def [symmetric] list_update_append)
qed

lemma entry_bytes_tombstoned:
  "(pre @ entry_bytes e @ post)[length pre + 4 := flags (e_header e) OR kEntryFlagDeleted] =
     pre @ entry_bytes (tombstoned e) @ post"
proof -
  define hb where "hb = bytes_of_EntryHeader (e_header e)"
  define tl where "tl = bytes_of_wchars (e_path e) @ e_payload e @ post"
  have l: "length hb = 28"
    by (simp add: hb_def length_bytes_of_EntryHeader)
  have "(pre @ hb @ tl)[length pre + 4 := flags (e_header e) OR kEntryFlagDeleted] =
      pre @ hb[4 := flags (e_header e) OR kEntryFlagDeleted] @ tl"
    using l by (simp add: list_update_append)
  then show ?thesis
    by (simp add: entry_bytes_def tombstoned_def hb_def tl_def bytes_of_EntryHeader_flags)
qed

lemma write_deleted_flag_entry:
  assumes c: "contents (archive_file a) = pre @ entry_bytes e @ post"
    and h: "last_header a = e_header e"
    and small: "length (contents (archive_file a)) < 2 ^ 63"
    and o: "offset (archive_file a) \<le> length (contents (archive_file a))"
  shows "write_deleted_flag (length pre) a =
     (Inr (), a\<lparr>archive_file :=
                   (archive_file a)\<lparr>contents := pre @ entry_bytes (tombstoned e) @ post\<rparr>\<rparr>)"
proof -
  define nf where "nf = flags (e_header e) OR kEntryFlagDeleted"
  define f1 where "f1 = (archive_file a)\<lparr>offset := length pre + 4\<rparr>"
  have inside: "length pre + 4 < length (contents (archive_file a))"
    by (simp add: c length_entry_bytes)
  then have "length pre + 4 < 2 ^ 63"
    using small by simp
  then have "int (length pre) + 4 < 2 ^ 63"
    using int_bound [of "length pre + 4"] by simp
  then have s1: "fseek_set (int (length pre) + 4) (archive_file a) = Some f1"
    by (simp add: fseek_set_def f1_def nat_add_distrib)
  have w: "fwrite [nf] f1 =
      (archive_file a)\<lparr>contents := pre @ entry_bytes (tombstoned e) @ post,
                        offset := length pre + 5\<rparr>"
    using inside entry_bytes_tombstoned [of pre e post]
    by (simp add: fwrite_def Let_def f1_def upd_conv_take_nth_drop c nf_def)
  have "offset (archive_file a) < 2 ^ 63"
    using small o by simp
  then have "int (offset (archive_file a)) < 2 ^ 63"
    by (rule int_bound)
  then have s2: "fseek_set (int (offset (archive_file a))) (fwrite [nf] f1) =
      Some ((archive_file a)\<lparr>contents := pre @ entry_bytes (tombstoned e) @ post\<rparr>)"
    by (simp add: fseek_set_def w)
  show ?thesis
    unfolding write_deleted_flag_def Let_def SeekOrThrow_set_def s1 h nf_def [symmetric]
    by (simp add: s2)
qed

lemma length_entry_bytes_erase: "length (entry_bytes (erase_entry P e)) = length (entry_bytes e)"
  by (simp add: erase_entry_def tombstoned_def length_entry_bytes)

lemma DeleteIf_turn_entry:
  assumes at: "at_entry a pre e post" and ok: "entry_ok e" and nc: "no_cancel a"
    and small: "length (contents (archive_file a)) < 2 ^ 63"
  shows "\<exists>a'. DeleteIf_turn (\<lambda>a. P (last_header_path a)) a = (Inr LoopContinue, a') \<and>
           contents (archive_file a') = pre @ entry_bytes (erase_entry P e) @ post \<and>
           offset (archive_file a') = length pre + length (entry_bytes e) \<and>
           no_cancel a'"
proof -
  define a1 where "a1 =
      a\<lparr>archive_file := (archive_file a)\<lparr>offset := length pre + 28 + 2 * length (e_path e)\<rparr>,
        last_header := e_header e,
        last_header_path := e_path e\<rparr>"
  have re: "ReadEntryHeader a = (Inr True, a1)"
    unfolding a1_def by (rule ReadEntryHeader_entry [OF at ok])
  have c: "contents (archive_file a) = pre @ entry_bytes e @ post"
    and o: "offset (archive_file a) = length pre"
    using at by (simp_all add: at_entry_def)
  have c1: "contents (archive_file a1) = pre @ entry_bytes e @ post"
    and o1: "offset (archive_file a1) = length pre + 28 + 2 * length (e_path e)"
    and h1: "last_header a1 = e_header e" and p1: "last_header_path a1 = e_path e"
    and nc1: "no_cancel a1"
    using nc by (simp_all add: a1_def c no_cancel_def)
  have len: "length (contents (archive_file a1)) =
      length pre + (28 + 2 * length (e_path e) + length (e_payload e)) + length post"
    by (simp add: c1 length_entry_bytes)
  have small1: "length (contents (archive_file a1)) < 2 ^ 63"
    using small by (simp add: c1 c)
  have turn: "DeleteIf_turn (\<lambda>a. P (last_header_path a)) a =
      (if is_deleted (e_header e) then
         (case skip_content a1 of
            (Inl e, a2) \<Rightarrow> (Inl e, a2)
          | (Inr u, a2) \<Rightarrow> (Inr LoopContinue, a2))
       else DeleteIf_live (\<lambda>a. P (last_header_path a)) (length pre) a1)"
    by (simp add: DeleteIf_turn_def re o h1)
  show ?thesis
  proof (cases "\<not> is_deleted (e_header e) \<and> P (e_path e)")
    case True
    define a2 where "a2 =
        a1\<lparr>archive_file := (archive_file a1)\<lparr>contents := pre @ entry_bytes (tombstoned e) @ post\<rparr>\<rparr>"
    have w: "write_deleted_flag (length pre) a1 = (Inr (), a2)"
      unfolding a2_def
      by (rule write_deleted_flag_entry [OF c1 h1 small1]) (simp add: len o1)
    have "offset (archive_file a2) + length (e_payload e) < 2 ^ 63"
      using small1 by (simp add: a2_def o1 len)
    moreover have "last_header a2 = e_header e"
      by (simp add: a2_def h1)
    ultimately have s: "skip_content a2 =
        (Inr (), a2\<lparr>archive_file :=
           (archive_file a2)\<lparr>offset := offset (archive_file a2) + length (e_payload e)\<rparr>\<rparr>)"
      using skip_content_entry [of a2 e] ok by blast
    define a3 where "a3 = a2\<lparr>archive_file :=
           (archive_file a2)\<lparr>offset := offset (archive_file a2) + length (e_payload e)\<rparr>\<rparr>"
    have "no_cancel a3"
      using nc1 by (simp add: a3_def a2_def no_cancel_def)
    then obtain cs where u: "UpdateProgress a3 = (False, a3\<lparr>cancel_requests := cs\<rparr>)"
      and cs: "True \<notin> set cs"
      using UpdateProgress_no_cancel by blast
    have "DeleteIf_turn (\<lambda>a. P (last_header_path a)) a =
        (Inr LoopContinue, a3\<lparr>cancel_requests := cs\<rparr>)"
      using True by (simp add: turn DeleteIf_live_def p1 w s a3_def [symmetric] u)
    moreover have "contents (archive_file (a3\<lparr>cancel_requests := cs\<rparr>)) =
        pre @ entry_bytes (erase_entry P e) @ post"
      using True by (simp add: a3_def a2_def erase_entry_def)
    moreover have "offset (archive_file (a3\<lparr>cancel_requests := cs\<rparr>)) =
        length pre + length (entry_bytes e)"
      by (simp add: a3_def a2_def o1 length_entry_bytes)
    moreover have "no_cancel (a3\<lparr>cancel_requests := cs\<rparr>)"
      using cs by (simp add: no_cancel_def)
    ultimately show ?thesis by blast
  next
    case False
    have "offset (archive_file a1) + length (e_payload e) < 2 ^ 63"
      using small1 by (simp add: o1 len)
    then have s: "skip_content a1 =
        (Inr (), a1\<lparr>archive_file :=
           (archive_file a1)\<lparr>offset := offset (archive_file a1) + length (e_payload e)\<rparr>\<rparr>)"
      using skip_content_entry [of a1 e] ok h1 by blast
    define a3 where "a3 = a1\<lparr>archive_file :=
           (archive_file a1)\<lparr>offset := offset (archive_file a1) + length (e_payload e)\<rparr>\<rparr>"
    have "no_cancel a3"
      using nc1 by (simp add: a3_def no_cancel_def)
    then obtain cs where u: "UpdateProgress a3 = (False, a3\<lparr>cancel_requests := cs\<rparr>)"
      and cs: "True \<notin> set cs"
      using UpdateProgress_no_cancel by blast
    have e: "erase_entry P e = e"
      using False by (auto simp: erase_entry_def)
    have c3: "contents (archive_file a3) = pre @ entry_bytes e @ post"
      and o3: "offset (archive_file a3) = length pre + length (entry_bytes e)"
      by (simp_all add: a3_def c1 o1 length_entry_bytes)
    show ?thesis
    proof (cases "is_deleted (e_header e)")
      case True
      then have "DeleteIf_turn (\<lambda>a. P (last_header_path a)) a = (Inr LoopContinue, a3)"
        by (simp add: turn s a3_def)
      moreover have "no_cancel a3"
        by (rule \<open>no_cancel a3\<close>)
      ultimately show ?thesis
        using c3 o3 e by auto
    next
      case live: False
      then have np: "\<not> P (e_path e)"
        using False by simp
      have "DeleteIf_turn (\<lambda>a. P (last_header_path a)) a =
          (Inr LoopContinue, a3\<lparr>cancel_requests := cs\<rparr>)"
        using live np by (simp add: turn DeleteIf_live_def p1 s a3_def [symmetric] u)
      moreover have "no_cancel (a3\<lparr>cancel_requests := cs\<rparr>)"
        using cs by (simp add: no_cancel_def)
      ultimately show ?thesis
        using c3 o3 e by auto
    qed
  qed
qed

lemma DeleteIf_turn_end:
  assumes "offset (archive_file a) = length (contents (archive_file a))"
  shows "\<exists>a'. DeleteIf_turn pred a = (Inr LoopBreak, a') \<and>
           contents (archive_file a') = contents (archive_file a)"
proof -
  have "length (remaining a) < 28"
    using assms by (simp add: remaining_def)
  then have f: "fst (ReadEntryHeader a) = Inr False"
    by (rule ReadEntryHeader_short)
  obtain r a1 where re: "ReadEntryHeader a = (r, a1)"
    by (cases "ReadEntryHeader a")
  have "contents (archive_file a1) = contents (archive_file a)"
    using contents_ReadEntryHeader [of a] re by simp
  then show ?thesis
    using f re by (simp add: DeleteIf_turn_def)
qed

text \<open>On well-formed records, with no cancel, the scan of \<^verbatim>\<open>DeleteIf\<close> ends and has
  tombstoned exactly the live records whose path satisfies the predicate.\<close>

lemma DeleteIf_entries:
  assumes "contents (archive_file a) = pre @ concat (map entry_bytes es)"
    and "offset (archive_file a) = length pre"
    and "\<forall>e\<in>set es. entry_ok e"
    and "no_cancel a"
    and "length (contents (archive_file a)) < 2 ^ 63"
    and "length es < n"
  shows "\<exists>a'. DeleteIf n (\<lambda>a. P (last_header_path a)) a = (Some (Inr ()), a') \<and>
           contents (archive_file a') = pre @ concat (map entry_bytes (map (erase_entry P) es))"
  using assms
proof (induction es arbitrary: a pre n)
  case Nil
  obtain m where n: "n = Suc m"
    using Nil.prems(6) by (cases n) auto
  have "offset (archive_file a) = length (contents (archive_file a))"
    using Nil.prems(1,2) by simp
  then obtain a' where "DeleteIf_turn (\<lambda>a. P (last_header_path a)) a = (Inr LoopBreak, a')"
    "contents (archive_file a') = contents (archive_file a)"
    using DeleteIf_turn_end by blast
  then show ?case
    using Nil.prems(1) by (simp add: n)
next
  case (Cons e es)
  obtain m where n: "n = Suc m" and m: "length es < m"
    using Cons.prems(6) by (cases n) auto
  have at: "at_entry a pre e (concat (map entry_bytes es))"
    using Cons.prems(1,2) by (simp add: at_entry_def)
  have ok: "entry_ok e"
    using Cons.prems(3) by simp
  obtain a1 where t: "DeleteIf_turn (\<lambda>a. P (last_header_path a)) a = (Inr LoopContinue, a1)"
    and c1: "contents (archive_file a1) =
        pre @ entry_bytes (erase_entry P e) @ concat (map entry_bytes es)"
    and o1: "offset (archive_file a1) = length pre + length (entry_bytes e)"
    and nc1: "no_cancel a1"
    using DeleteIf_turn_entry [OF at ok Cons.prems(4) Cons.prems(5), of P] by blast
  have c1': "contents (archive_file a1) =
      (pre @ entry_bytes (erase_entry P e)) @ concat (map entry_bytes es)"
    by (simp add: c1)
  have o1': "offset (archive_file a1) = length (pre @ entry_bytes (erase_entry P e))"
    by (simp add: o1 length_entry_bytes_erase)
  have small1: "length (contents (archive_file a1)) < 2 ^ 63"
    using Cons.prems(5) by (simp add: c1 Cons.prems(1) length_entry_bytes_erase)
  have oks: "\<forall>e\<in>set es. entry_ok e"
    using Cons.prems(3) by simp
  obtain a' where "DeleteIf m (\<lambda>a. P (last_header_path a)) a1 = (Some (Inr ()), a')"
    "contents (archive_file a') =
       (pre @ entry_bytes (erase_entry P e)) @ concat (map entry_bytes (map (erase_entry P) es))"
    using Cons.IH [OF c1' o1' oks nc1 small1 m] by blast
  then show ?case
    by (simp add: n t)
qed

lemma ReadAndCheckHeader_archive:
  "ReadAndCheckHeader (new_ArchiveBase \<lparr>contents = kFileHeader @ rest, offset = 0\<rparr> cs) =
     (Inr (), new_ArchiveBase \<lparr>contents = kFileHeader @ rest, offset = 8\<rparr> cs)"
  by (simp add: ReadAndCheckHeader_def fread_eq new_ArchiveBase_def kFileHeader_def)

text \<open>An erase of a well-formed archive, not cancelled, with a list that is not empty.\<close>

lemma DeleteFilesW_entries:
  assumes "\<forall>e\<in>set es. entry_ok e" and "length (archive_bytes es) < 2 ^ 63"
    and "True \<notin> set cancels" and "string_list deleteList \<noteq> []" and "length es < turns"
  shows "DeleteFilesW turns cancels (Some (archive_bytes es)) deleteList =
     (Some (Inr 0),
      Some (archive_bytes
              (map (erase_entry (\<lambda>p. ShouldDelete p (paths_to_delete_of deleteList))) es)))"
proof -
  define P where "P = (\<lambda>p. ShouldDelete p (paths_to_delete_of deleteList))"
  obtain cs where pc: "progress_cancelled cancels = (False, cs)" and cs: "True \<notin> set cs"
    using assms(3) by (cases cancels) (auto simp: progress_cancelled_def)
  define a1 where "a1 = new_ArchiveBase \<lparr>contents = archive_bytes es, offset = 8\<rparr> cs"
  have h: "ReadAndCheckHeader (new_ArchiveBase \<lparr>contents = archive_bytes es, offset = 0\<rparr> cs) =
      (Inr (), a1)"
    unfolding a1_def archive_bytes_def by (rule ReadAndCheckHeader_archive)
  have "contents (archive_file a1) = kFileHeader @ concat (map entry_bytes es)"
    "offset (archive_file a1) = length kFileHeader" "no_cancel a1"
    "length (contents (archive_file a1)) < 2 ^ 63"
    using cs assms(2)
    by (simp_all add: a1_def new_ArchiveBase_def archive_bytes_def kFileHeader_def no_cancel_def)
  then obtain a2 where d: "DeleteIf turns (\<lambda>a. P (last_header_path a)) a1 = (Some (Inr ()), a2)"
    and c2: "contents (archive_file a2) =
        kFileHeader @ concat (map entry_bytes (map (erase_entry P) es))"
    using DeleteIf_entries [OF _ _ assms(1) _ _ assms(5), of a1 kFileHeader P] by blast
  have ne: "paths_to_delete_of deleteList \<noteq> []"
    using assms(4) by (simp add: paths_to_delete_of_Nil_iff)
  show ?thesis
    using ne c2
    by (simp add: DeleteFilesW_def pc open_existing_def h [unfolded archive_bytes_def]
        d [unfolded P_def] archive_bytes_def P_def)
qed

lemma stored_entry_file_entry: "stored_entry p bs = entry_bytes (file_entry p bs)"
  by (simp add: stored_entry_def entry_bytes_def file_entry_def)

lemma entry_ok_file_entry:
  assumes "0 < length p" "length p \<le> 1023" "length bs < 2 ^ 63"
  shows "entry_ok (file_entry p bs)"
proof -
  have "unat (of_nat (length p) :: 16 word) = length p"
    using assms(2) by (simp add: unat_of_nat)
  moreover have "unat (of_nat (length bs) :: 64 word) = length bs"
    using assms(3) by (simp add: unat_of_nat)
  ultimately show ?thesis
    using assms by (simp add: entry_ok_def file_entry_def)
qed

lemma entry_ok_tombstoned: "entry_ok (tombstoned e) = entry_ok e"
  by (simp add: entry_ok_def tombstoned_def)

lemma live_file_entry: "\<not> is_deleted (e_header (file_entry p bs))"
  by (simp add: is_deleted_def file_entry_def)

lemma ShouldDelete_example_below: "ShouldDelete (wpath [''Dir'', ''A.txt'']) (paths_to_delete_of [wpath [''Dir'', ''*.*'']])"
  by code_simp

lemma ShouldDelete_example_other: "\<not> ShouldDelete (W ''Other.txt'') (paths_to_delete_of [wpath [''Dir'', ''*.*'']])"
  by code_simp

lemma ShouldDelete_example_deep:
  "ShouldDelete (wpath [''Dir'', ''Sub'', ''B.txt'']) (paths_to_delete_of [wpath [''Dir'', ''*.*'']])"
  by code_simp

lemma e_path_file_entry: "e_path (file_entry p bs) = p"
  by (simp add: file_entry_def)

lemma three_files_ok: "\<forall>e\<in>set three_files. entry_ok e"
  by (simp add: three_files_def entry_ok_file_entry W_def)

lemma three_files_small: "length (archive_bytes three_files) < 2 ^ 63"
  by (simp add: three_files_def archive_bytes_def length_entry_bytes file_entry_def W_def
      kFileHeader_def)

text \<open>
  C7. An erase marks an entry exactly when the upper-cased path of the entry, or one of
  the paths reached from it by stripping the last component again and again (the empty
  path left out), is in the deletion set as the erase stores it: each listed path
  without a final \<^verbatim>\<open>*.*\<close>, without a final separator, in upper case. In particular
  every entry below a listed directory, at any depth, is marked. On a well-formed
  archive an erase that is not cancelled and whose list is not empty returns 0 and
  leaves the archive with exactly the live entries so matched tombstoned.
\<close>

theorem erase_tombstones_by_ancestors:
  "(ShouldDelete curr_path (paths_to_delete_of deleteList) \<longleftrightarrow>
      in_deletion_set deleteList curr_path) \<and>
   (\<forall>d\<in>set (string_list deleteList). \<forall>dir c rest.
      delete_list_path d \<noteq> [] \<and> UpperCase dir = delete_list_path d \<and> is_slash c \<longrightarrow>
      in_deletion_set deleteList (dir @ c # rest)) \<and>
   ((\<forall>e\<in>set es. entry_ok e) \<and> length (archive_bytes es) < 2 ^ 63 \<and>
      True \<notin> set cancels \<and> string_list deleteList \<noteq> [] \<and> length es < turns \<longrightarrow>
      DeleteFilesW turns cancels (Some (archive_bytes es)) deleteList =
        (Some (Inr 0),
         Some (archive_bytes (map (erase_entry (in_deletion_set deleteList)) es))))"
proof -
  have A: "ShouldDelete p (paths_to_delete_of deleteList) \<longleftrightarrow> in_deletion_set deleteList p"
    for p
    unfolding in_deletion_set_def
    using ShouldDelete_by_ancestors [of p deleteList] by blast
  have B: "\<forall>d\<in>set (string_list deleteList). \<forall>dir c rest.
      delete_list_path d \<noteq> [] \<and> UpperCase dir = delete_list_path d \<and> is_slash c \<longrightarrow>
      in_deletion_set deleteList (dir @ c # rest)"
    unfolding A [symmetric]
    using ShouldDelete_by_ancestors [of "[]" deleteList] by blast
  have "(\<lambda>p. ShouldDelete p (paths_to_delete_of deleteList)) = in_deletion_set deleteList"
    using A by blast
  then have C: "(\<forall>e\<in>set es. entry_ok e) \<and> length (archive_bytes es) < 2 ^ 63 \<and>
      True \<notin> set cancels \<and> string_list deleteList \<noteq> [] \<and> length es < turns \<longrightarrow>
      DeleteFilesW turns cancels (Some (archive_bytes es)) deleteList =
        (Some (Inr 0),
         Some (archive_bytes (map (erase_entry (in_deletion_set deleteList)) es)))"
    using DeleteFilesW_entries [of es cancels deleteList turns] by auto
  show ?thesis
    using A B C by blast
qed

theorem erase_tombstones_by_ancestors_witness:
  "DeleteFilesW 4 [] (Some (archive_bytes three_files)) [wpath [''Dir'', ''*.*'']] =
     (Some (Inr 0),
      Some (archive_bytes
        [tombstoned (file_entry (wpath [''Dir'', ''A.txt'']) [1]),
         tombstoned (file_entry (wpath [''Dir'', ''Sub'', ''B.txt'']) [2]),
         file_entry (W ''Other.txt'') [3]]))"
proof -
  note inst = erase_tombstones_by_ancestors [of _ "[wpath [''Dir'', ''*.*'']]" three_files "[]" 4]
  have l: "string_list [wpath [''Dir'', ''*.*'']] \<noteq> []"
    by (simp add: string_list_def c_str_def W_def backslash_def)
  have in1: "in_deletion_set [wpath [''Dir'', ''*.*'']] (wpath [''Dir'', ''A.txt''])"
    and in2: "in_deletion_set [wpath [''Dir'', ''*.*'']] (wpath [''Dir'', ''Sub'', ''B.txt''])"
    and in3: "\<not> in_deletion_set [wpath [''Dir'', ''*.*'']] (W ''Other.txt'')"
    using inst [THEN conjunct1] ShouldDelete_example_below ShouldDelete_example_deep
      ShouldDelete_example_other by blast+
  have "map (erase_entry (in_deletion_set [wpath [''Dir'', ''*.*'']])) three_files =
      [tombstoned (file_entry (wpath [''Dir'', ''A.txt'']) [1]),
       tombstoned (file_entry (wpath [''Dir'', ''Sub'', ''B.txt'']) [2]),
       file_entry (W ''Other.txt'') [3]]"
    using in1 in2 in3
    by (simp add: three_files_def erase_entry_def live_file_entry e_path_file_entry
        del: wpath.simps)
  moreover have "length three_files < 4"
    by (simp add: three_files_def)
  ultimately show ?thesis
    using inst [THEN conjunct2, THEN conjunct2] three_files_ok three_files_small l
    by simp
qed



end
